theory Spec2Isabelle
  imports Main
begin

section \<open>Strings\<close>

text \<open>
  A JavaScript string is a sequence of code units. The model uses \<open>string\<close>, whose
  characters are the code units 0..255; on that range \<open>toLowerCase\<close>, \<open>trim\<close> and the
  regular-expression class \<open>\s\<close> are as defined below.
\<close>

definition code :: "char \<Rightarrow> nat" where
  "code c = of_char c"

definition isLower :: "char \<Rightarrow> bool" where
  "isLower c = (97 \<le> code c \<and> code c \<le> 122)"

definition isUpper :: "char \<Rightarrow> bool" where
  "isUpper c = (65 \<le> code c \<and> code c \<le> 90)"

definition isDigit :: "char \<Rightarrow> bool" where
  "isDigit c = (48 \<le> code c \<and> code c \<le> 57)"

definition isLetter :: "char \<Rightarrow> bool" where
  "isLetter c = (isLower c \<or> isUpper c)"

text \<open>The class \<open>[a-z0-9_]\<close>.\<close>

definition isNameChar :: "char \<Rightarrow> bool" where
  "isNameChar c = (isLower c \<or> isDigit c \<or> c = CHR ''_'')"

text \<open>
  White space of \<open>trim\<close> and of \<open>\s\<close>: tab, line feed, vertical tab, form feed,
  carriage return, space and the no-break space.
\<close>

definition isSpace :: "char \<Rightarrow> bool" where
  "isSpace c = (code c \<in> {9, 10, 11, 12, 13, 32, 160})"

text \<open>
  \<open>toLowerCase\<close> on one code unit: A-Z, and the upper-case letters of the range
  192..222 (the multiplication sign 215 apart), move up by 32.
\<close>

definition toLowerChar :: "char \<Rightarrow> char" where
  "toLowerChar c =
     (if isUpper c \<or> (192 \<le> code c \<and> code c \<le> 222 \<and> code c \<noteq> 215)
      then char_of (code c + 32) else c)"

definition toLowerCase :: "string \<Rightarrow> string" where
  "toLowerCase s = map toLowerChar s"

definition trim :: "string \<Rightarrow> string" where
  "trim s = rev (dropWhile isSpace (rev (dropWhile isSpace s)))"

text \<open>\<open>s.replace(/\s+/g, '_')\<close>: every maximal run of white space becomes one underscore.\<close>

fun replaceSpaces :: "bool \<Rightarrow> string \<Rightarrow> string" where
  "replaceSpaces inRun [] = []"
| "replaceSpaces inRun (c # cs) =
     (if isSpace c then (if inRun then replaceSpaces True cs else CHR ''_'' # replaceSpaces True cs)
      else c # replaceSpaces False cs)"

text \<open>\<open>s.replace(/[^a-z0-9_]/g, '')\<close>.\<close>

definition dropOthers :: "string \<Rightarrow> string" where
  "dropOthers s = filter isNameChar s"

section \<open>Name Sanitizer\<close>

definition toInternalName :: "string \<Rightarrow> string" where
  "toInternalName label =
     (let name = dropOthers (replaceSpaces False (trim (toLowerCase label)));
          name = (case name of c # _ \<Rightarrow> if isDigit c then ''p_'' @ name else name | [] \<Rightarrow> name)
      in take 250 name)"

section \<open>Option List Parser\<close>

record choiceOption =
  label :: string
  ovalue :: string
  displayOrder :: nat
  hidden :: bool

text \<open>\<open>s.split(sep)\<close> for a one-character separator: never empty, \<open>''''\<close> gives \<open>['''']\<close>.\<close>

fun split :: "char \<Rightarrow> string \<Rightarrow> string list" where
  "split sep [] = [[]]"
| "split sep (c # cs) =
     (if c = sep then [] # split sep cs
      else (case split sep cs of p # ps \<Rightarrow> (c # p) # ps | [] \<Rightarrow> [[c]]))"

definition digitChar :: "nat \<Rightarrow> char" where
  "digitChar d = char_of (48 + d)"

fun showNat :: "nat \<Rightarrow> string" where
  "showNat n = (if n < 10 then [digitChar n] else showNat (n div 10) @ [digitChar (n mod 10)])"

declare showNat.simps [simp del]

definition mkOption :: "string \<Rightarrow> nat \<Rightarrow> choiceOption" where
  "mkOption l i =
     \<lparr>label = l,
      ovalue = (if toInternalName l = [] then ''option_'' @ showNat i else toInternalName l),
      displayOrder = i, hidden = False\<rparr>"

definition parseOptions :: "string \<Rightarrow> choiceOption list" where
  "parseOptions optionsStr =
     (if optionsStr = [] \<or> trim optionsStr = [] then []
      else (let labels = filter (\<lambda>p. p \<noteq> []) (map trim (split CHR '';'' optionsStr))
            in map (\<lambda>(l, i). mkOption l i) (zip labels [0..<length labels])))"

section \<open>Content items\<close>

text \<open>
  A content item is whatever the CRM's JSON response held: \<open>null\<close>, a boolean, a
  number (integers are modelled), a string, an array or an object (its members in
  enumeration order). \<open>undefined\<close>, the result of reading a missing property, is
  \<open>None\<close> of \<open>json option\<close>.
\<close>

datatype json =
    JNull
  | JBool bool
  | JNum int
  | JStr string
  | JArr "json list"
  | JObj "(string \<times> json) list"

subsection \<open>\<open>JSON.stringify\<close>\<close>

definition hexDigit :: "nat \<Rightarrow> char" where
  "hexDigit n = (if n < 10 then char_of (48 + n) else char_of (87 + n))"

text \<open>
  The escapes of a string literal: the quote, the backslash, the five short escapes and
  \<open>\u00XX\<close> for the other control characters.
\<close>

definition escChar :: "char \<Rightarrow> string" where
  "escChar c =
     (if c = CHR 0x22 then [CHR 0x5C, CHR 0x22]
      else if c = CHR 0x5C then [CHR 0x5C, CHR 0x5C]
      else if code c = 8 then [CHR 0x5C, CHR ''b'']
      else if code c = 9 then [CHR 0x5C, CHR ''t'']
      else if code c = 10 then [CHR 0x5C, CHR ''n'']
      else if code c = 12 then [CHR 0x5C, CHR ''f'']
      else if code c = 13 then [CHR 0x5C, CHR ''r'']
      else if code c < 32
        then [CHR 0x5C, CHR ''u'', CHR ''0'', CHR ''0'', hexDigit (code c div 16), hexDigit (code c mod 16)]
      else [c])"

definition quote :: "string \<Rightarrow> string" where
  "quote s = CHR 0x22 # concat (map escChar s) @ [CHR 0x22]"

definition showInt :: "int \<Rightarrow> string" where
  "showInt i = (if i < 0 then CHR ''-'' # showNat (nat (- i)) else showNat (nat i))"

fun stringify :: "json \<Rightarrow> string"
  and stringifyElems :: "json list \<Rightarrow> string"
  and stringifyMembers :: "(string \<times> json) list \<Rightarrow> string" where
  "stringify JNull = ''null''"
| "stringify (JBool b) = (if b then ''true'' else ''false'')"
| "stringify (JNum n) = showInt n"
| "stringify (JStr s) = quote s"
| "stringify (JArr xs) = ''['' @ stringifyElems xs @ '']''"
| "stringify (JObj ms) = ''{'' @ stringifyMembers ms @ ''}''"
| "stringifyElems [] = []"
| "stringifyElems [x] = stringify x"
| "stringifyElems (x # y # ys) = stringify x @ '','' @ stringifyElems (y # ys)"
| "stringifyMembers [] = []"
| "stringifyMembers [(k, v)] = quote k @ '':'' @ stringify v"
| "stringifyMembers ((k, v) # m # ms) = quote k @ '':'' @ stringify v @ '','' @ stringifyMembers (m # ms)"

subsection \<open>Reading values the JavaScript way\<close>

text \<open>
  What the code can throw: a TypeError of the language (reading a property of \<open>null\<close>,
  iterating a value that is not iterable), or the HTTP client's error for a failed
  request, with the message of the upstream error body when there is one and the
  client's own message.
\<close>

datatype error = TypeError | RequestFailed "string option" string

text \<open>Truthiness: \<open>null\<close>, \<open>undefined\<close>, \<open>false\<close>, \<open>0\<close> and \<open>''''\<close> are falsy.\<close>

fun truthy :: "json \<Rightarrow> bool" where
  "truthy JNull = False"
| "truthy (JBool b) = b"
| "truthy (JNum n) = (n \<noteq> 0)"
| "truthy (JStr s) = (s \<noteq> [])"
| "truthy (JArr xs) = True"
| "truthy (JObj ms) = True"

definition truthyOpt :: "json option \<Rightarrow> bool" where
  "truthyOpt v = (case v of None \<Rightarrow> False | Some x \<Rightarrow> truthy x)"

text \<open>
  \<open>v.k\<close> for one of the property names the code reads (none of them is a member of
  a prototype): a member of an object, \<open>undefined\<close> on any other value, a TypeError on
  \<open>null\<close>.
\<close>

fun getProp :: "json \<Rightarrow> string \<Rightarrow> error + json option" where
  "getProp JNull k = Inl TypeError"
| "getProp (JObj ms) k = Inr (map_of ms k)"
| "getProp v k = Inr None"


text \<open>
  The values a \<open>for (const x of v)\<close> loop visits: the elements of an array, the
  characters of a string; any other value is not iterable.
\<close>

fun iterate :: "json \<Rightarrow> error + json list" where
  "iterate (JArr xs) = Inr xs"
| "iterate (JStr s) = Inr (map (\<lambda>c. JStr [c]) s)"
| "iterate v = Inl TypeError"

text \<open>\<open>for (const x of (v || []))\<close>.\<close>

definition iterateOrEmpty :: "json option \<Rightarrow> error + json list" where
  "iterateOrEmpty v = (case v of None \<Rightarrow> Inr [] | Some x \<Rightarrow> if truthy x then iterate x else Inr [])"

text \<open>A \<open>Set\<close> keeps its members in insertion order; \<open>add\<close> of a member changes nothing.\<close>

definition setAdd :: "'a \<Rightarrow> 'a list \<Rightarrow> 'a list" where
  "setAdd x xs = (if x \<in> set xs then xs else xs @ [x])"


text \<open>\<open>String(v)\<close>, as a template literal or a property key converts a value.\<close>

fun jsToString :: "json \<Rightarrow> string"
  and joinElems :: "json list \<Rightarrow> string" where
  "jsToString JNull = ''null''"
| "jsToString (JBool b) = (if b then ''true'' else ''false'')"
| "jsToString (JNum n) = showInt n"
| "jsToString (JStr s) = s"
| "jsToString (JArr xs) = joinElems xs"
| "jsToString (JObj ms) = ''[object Object]''"
| "joinElems [] = []"
| "joinElems [x] = (if x = JNull then [] else jsToString x)"
| "joinElems (x # y # ys) = (if x = JNull then [] else jsToString x) @ '','' @ joinElems (y # ys)"




section \<open>Regular expressions\<close>

text \<open>
  The two patterns of the Reference Extractor are sequences of character classes, each
  taken once, \<open>*\<close> or \<open>+\<close> times (greedy), an optional non-capturing group of
  characters, and one capturing group. \<open>rxMatch\<close> is the backtracking matcher at one
  position: it returns what group 1 captured and the input left after the match.
  \<open>gs\<close> and \<open>ge\<close> are the inputs left where the group opened and closed.
\<close>

datatype rx =
    One "char \<Rightarrow> bool"
  | Star "char \<Rightarrow> bool"
  | Plus "char \<Rightarrow> bool"
  | Opt "(char \<Rightarrow> bool) list"
  | GroupOpen
  | GroupClose

fun rxSize :: "rx \<Rightarrow> nat" where
  "rxSize (Opt ps) = Suc (length ps)"
| "rxSize (Plus p) = 3"
| "rxSize r = 1"

function rxMatch :: "rx list \<Rightarrow> string \<Rightarrow> string \<Rightarrow> string \<Rightarrow> (string \<times> string) option" where
  "rxMatch [] s gs ge = Some (take (length gs - length ge) gs, s)"
| "rxMatch (One p # rs) s gs ge =
     (case s of [] \<Rightarrow> None | c # cs \<Rightarrow> if p c then rxMatch rs cs gs ge else None)"
| "rxMatch (Star p # rs) s gs ge =
     (case s of
        [] \<Rightarrow> rxMatch rs s gs ge
      | c # cs \<Rightarrow>
          if p c then (case rxMatch (Star p # rs) cs gs ge of
                         Some r \<Rightarrow> Some r
                       | None \<Rightarrow> rxMatch rs s gs ge)
          else rxMatch rs s gs ge)"
| "rxMatch (Plus p # rs) s gs ge = rxMatch (One p # Star p # rs) s gs ge"
| "rxMatch (Opt ps # rs) s gs ge =
     (case rxMatch (map One ps @ rs) s gs ge of
        Some r \<Rightarrow> Some r
      | None \<Rightarrow> rxMatch rs s gs ge)"
| "rxMatch (GroupOpen # rs) s gs ge = rxMatch rs s s ge"
| "rxMatch (GroupClose # rs) s gs ge = rxMatch rs s gs s"
  by pat_completeness auto
termination
proof (relation "measures [\<lambda>(rs, s, gs, ge). sum_list (map rxSize rs), \<lambda>(rs, s, gs, ge). length s]")
  show "wf (measures [\<lambda>(rs, s, gs, ge). sum_list (map rxSize rs), \<lambda>(rs, s, gs, ge). length s])"
    by simp
next
  fix ps :: "(char \<Rightarrow> bool) list" and rs :: "rx list" and s gs ge :: string
  have "sum_list (map rxSize (map One ps)) = length ps"
    by (induction ps) simp_all
  then show "((map One ps @ rs, s, gs, ge), Opt ps # rs, s, gs, ge)
      \<in> measures [\<lambda>(rs, s, gs, ge). sum_list (map rxSize rs), \<lambda>(rs, s, gs, ge). length s]"
    by simp
qed simp_all

text \<open>
  \<open>re.exec(str)\<close> of a global pattern, \<open>s\<close> being the input from \<open>lastIndex\<close> on: the
  match at the first position that has one.
\<close>

fun exec :: "rx list \<Rightarrow> string \<Rightarrow> (string \<times> string) option" where
  "exec re [] = rxMatch re [] [] []"
| "exec re (c # cs) =
     (case rxMatch re (c # cs) (c # cs) (c # cs) of
        Some r \<Rightarrow> Some r
      | None \<Rightarrow> exec re cs)"

text \<open>
  \<open>while ((m = re.exec(str)) !== null) names.add(m[1])\<close>. A match that leaves the whole
  input is an empty match at \<open>lastIndex\<close>: \<open>lastIndex\<close> stays, and the loop does not end
  (\<open>None\<close>).
\<close>

function execLoop :: "rx list \<Rightarrow> string \<Rightarrow> string list \<Rightarrow> string list option" where
  "execLoop re s names =
     (case exec re s of
        None \<Rightarrow> Some names
      | Some (g, rest) \<Rightarrow>
          if length rest < length s then execLoop re rest (setAdd g names) else None)"
  by pat_completeness auto
termination
  by (relation "measure (\<lambda>(re, s, names). length s)") simp_all

declare execLoop.simps [simp del]

definition isChar :: "char \<Rightarrow> char \<Rightarrow> bool" where
  "isChar a c = (c = a)"

definition oneOf :: "string \<Rightarrow> char \<Rightarrow> bool" where
  "oneOf cs c = (c \<in> set cs)"

definition isLowerOrUnderscore :: "char \<Rightarrow> bool" where
  "isLowerOrUnderscore c = (isLower c \<or> c = CHR ''_'')"

section \<open>Reference Extractor\<close>

text \<open>\<open>/"[a-zA-Z]*[Pp]roperty(?:[Nn]ame)?"\s*:\s*"([a-z][a-z0-9_]*)"/g\<close>\<close>

definition propRe :: "rx list" where
  "propRe =
     [One (isChar CHR 0x22), Star isLetter, One (oneOf ''Pp'')] @ map (\<lambda>c. One (isChar c)) ''roperty'' @
     [Opt [oneOf ''Nn'', isChar CHR ''a'', isChar CHR ''m'', isChar CHR ''e''], One (isChar CHR 0x22),
      Star isSpace, One (isChar CHR '':''), Star isSpace, One (isChar CHR 0x22),
      GroupOpen, One isLower, Star isNameChar, GroupClose, One (isChar CHR 0x22)]"

text \<open>\<open>/\{\{[a-z_]+\.([a-z0-9_]+)\}\}/g\<close>\<close>

definition tokenRe :: "rx list" where
  "tokenRe =
     [One (isChar CHR ''{''), One (isChar CHR ''{''), Plus isLowerOrUnderscore, One (isChar CHR ''.''),
      GroupOpen, Plus isNameChar, GroupClose, One (isChar CHR ''}''), One (isChar CHR ''}'')]"

definition extractPropNamesFromJson :: "string \<Rightarrow> string list option" where
  "extractPropNamesFromJson str = execLoop propRe str []"

definition extractPropsFromJsonWithTokens :: "json \<Rightarrow> string list option" where
  "extractPropsFromJsonWithTokens obj =
     (let str = stringify obj in
      case extractPropNamesFromJson str of
        None \<Rightarrow> None
      | Some names \<Rightarrow> execLoop tokenRe str names)"

definition extractWorkflowProps :: "json \<Rightarrow> string list option" where
  "extractWorkflowProps workflow = extractPropsFromJsonWithTokens workflow"

definition extractEmailProps :: "json \<Rightarrow> string list option" where
  "extractEmailProps email = extractPropsFromJsonWithTokens email"




subsection \<open>The form walk\<close>

text \<open>The nesting depth of a value; the walk below descends along it.\<close>

fun depth :: "json \<Rightarrow> nat"
  and depthList :: "json list \<Rightarrow> nat"
  and depthMembers :: "(string \<times> json) list \<Rightarrow> nat" where
  "depth (JArr xs) = Suc (depthList xs)"
| "depth (JObj ms) = Suc (Suc (depthMembers ms))"
| "depth JNull = 0"
| "depth (JBool b) = 0"
| "depth (JNum n) = 0"
| "depth (JStr s) = 0"
| "depthList [] = 0"
| "depthList (x # xs) = max (depth x) (depthList xs)"
| "depthMembers [] = 0"
| "depthMembers (m # ms) = max (depth (snd m)) (depthMembers ms)"

text \<open>
  \<open>scanFields(fields)\<close> with the set \<open>names\<close> it adds to. The three nested \<open>for\<close>
  loops are \<open>scanFieldList\<close> (over the fields), \<open>scanDeps\<close> (over
  \<open>field.dependentFields\<close>) and \<open>scanFilters\<close> (over \<open>dep.dependentFieldFilters\<close>).
\<close>

function scanFields :: "json option \<Rightarrow> json list \<Rightarrow> error + json list"
  and scanFieldList :: "json list \<Rightarrow> json list \<Rightarrow> error + json list"
  and scanDeps :: "json list \<Rightarrow> json list \<Rightarrow> error + json list"
  and scanFilters :: "json list \<Rightarrow> json list \<Rightarrow> error + json list" where
  "scanFields flds names =
     (case iterateOrEmpty flds of
        Inl e \<Rightarrow> Inl e
      | Inr fs \<Rightarrow> scanFieldList fs names)"
| "scanFieldList [] names = Inr names"
| "scanFieldList (field # rest) names =
     (case getProp field ''name'' of
        Inl e \<Rightarrow> Inl e
      | Inr nm \<Rightarrow>
          (case getProp field ''dependentFields'' of
             Inl e \<Rightarrow> Inl e
           | Inr deps \<Rightarrow>
               (case iterateOrEmpty deps of
                  Inl e \<Rightarrow> Inl e
                | Inr ds \<Rightarrow>
                    (case scanDeps ds (case nm of
                                         Some n \<Rightarrow> if truthy n then setAdd n names else names
                                       | None \<Rightarrow> names) of
                       Inl e \<Rightarrow> Inl e
                     | Inr names' \<Rightarrow> scanFieldList rest names'))))"
| "scanDeps [] names = Inr names"
| "scanDeps (dep # rest) names =
     (case getProp dep ''dependentFieldFilters'' of
        Inl e \<Rightarrow> Inl e
      | Inr filters \<Rightarrow>
          (case iterateOrEmpty filters of
             Inl e \<Rightarrow> Inl e
           | Inr fl \<Rightarrow>
               (case scanFilters fl names of
                  Inl e \<Rightarrow> Inl e
                | Inr names' \<Rightarrow>
                    (case getProp dep ''fields'' of
                       Inl e \<Rightarrow> Inl e
                     | Inr dfields \<Rightarrow>
                         (case scanFields dfields names' of
                            Inl e \<Rightarrow> Inl e
                          | Inr names'' \<Rightarrow> scanDeps rest names'')))))"
| "scanFilters [] names = Inr names"
| "scanFilters (flt # rest) names =
     (case getProp flt ''dependentFormField'' of
        Inl e \<Rightarrow> Inl e
      | Inr dff \<Rightarrow>
          (case (case dff of
                   Some d \<Rightarrow> if truthy d then scanFields (Some (JArr [d])) names else Inr names
                 | None \<Rightarrow> Inr names) of
             Inl e \<Rightarrow> Inl e
           | Inr names' \<Rightarrow> scanFilters rest names'))"
  by pat_completeness auto
termination
proof -
  let ?rank = "\<lambda>x. case x of
        Inl (Inl (flds, names)) \<Rightarrow> (case flds of None \<Rightarrow> 1 | Some v \<Rightarrow> 4 * depth v + 4)
      | Inl (Inr (fs, names)) \<Rightarrow> (if fs = [] then 0 else 4 * depthList fs + 3)
      | Inr (Inl (ds, names)) \<Rightarrow> 4 * depthList ds + 2
      | Inr (Inr (fl, names)) \<Rightarrow> 4 * depthList fl + 1"
  let ?len = "\<lambda>x. case x of
        Inl (Inl (flds, names)) \<Rightarrow> 0
      | Inl (Inr (fs, names)) \<Rightarrow> length fs
      | Inr (Inl (ds, names)) \<Rightarrow> length ds
      | Inr (Inr (fl, names)) \<Rightarrow> length fl"
  have prop_lt: "\<And>v k x. getProp v k = Inr (Some x) \<Longrightarrow> depth x + 2 \<le> depth v"
  proof -
    fix v :: json and k x
    assume g: "getProp v k = Inr (Some x)"
    then obtain ms where v: "v = JObj ms" and m: "map_of ms k = Some x"
      by (cases v) auto
    from m have "(k, x) \<in> set ms" by (rule map_of_SomeD)
    then have "depth x \<le> depthMembers ms"
      by (induction ms) auto
    with v show "depth x + 2 \<le> depth v" by simp
  qed
  have iter_le: "\<And>v xs. iterateOrEmpty v = Inr xs \<Longrightarrow>
      depthList xs \<le> (case v of None \<Rightarrow> 0 | Some w \<Rightarrow> depth w) \<and>
      (v = None \<longrightarrow> xs = []) \<and>
      (\<forall>w. v = Some w \<and> depth w > 0 \<longrightarrow> depthList xs < depth w)"
  proof -
    fix v xs
    assume it: "iterateOrEmpty v = Inr xs"
    have str: "\<And>s. depthList (map (\<lambda>c. JStr [c]) s) = 0"
    proof -
      fix s :: string
      show "depthList (map (\<lambda>c. JStr [c]) s) = 0" by (induction s) simp_all
    qed
    show "depthList xs \<le> (case v of None \<Rightarrow> 0 | Some w \<Rightarrow> depth w) \<and>
      (v = None \<longrightarrow> xs = []) \<and>
      (\<forall>w. v = Some w \<and> depth w > 0 \<longrightarrow> depthList xs < depth w)"
    proof (cases v)
      case None
      with it show ?thesis by (simp add: iterateOrEmpty_def)
    next
      case (Some w)
      with it show ?thesis
        by (cases w) (auto simp: iterateOrEmpty_def str split: if_splits)
    qed
  qed
  show ?thesis
  proof (relation "measures [?rank, ?len]")
    show "wf (measures [?rank, ?len])" by simp
  next
    fix flds names fs
    assume "iterateOrEmpty flds = Inr fs"
    from iter_le [OF this]
    show "(Inl (Inr (fs, names)), Inl (Inl (flds, names))) \<in> measures [?rank, ?len]"
      by (cases flds) auto
  next
    fix field :: json and rest names nm deps ds
    assume "getProp field ''dependentFields'' = Inr deps" and "iterateOrEmpty deps = Inr ds"
    then have "depthList ds \<le> depth field"
      using iter_le [of deps ds] prop_lt [of field "''dependentFields''"]
      by (cases deps) auto
    then show "(Inr (Inl (ds, case nm of None \<Rightarrow> names
          | Some n \<Rightarrow> if truthy n then setAdd n names else names)),
        Inl (Inr (field # rest, names))) \<in> measures [?rank, ?len]"
      by (auto simp: max_def)
  next
    fix field :: json and rest names names' :: "json list"
    show "(Inl (Inr (rest, names')), Inl (Inr (field # rest, names))) \<in> measures [?rank, ?len]"
      by (auto simp: max_def)
  next
    fix dep :: json and rest names filters fl
    assume "getProp dep ''dependentFieldFilters'' = Inr filters" and "iterateOrEmpty filters = Inr fl"
    then have "depthList fl \<le> depth dep"
      using iter_le [of filters fl] prop_lt [of dep "''dependentFieldFilters''"]
      by (cases filters) auto
    then show "(Inr (Inr (fl, names)), Inr (Inl (dep # rest, names)))
        \<in> measures [?rank, ?len]"
      by (auto simp: max_def)
  next
    fix dep :: json and rest names names' :: "json list" and dfields
    assume "getProp dep ''fields'' = Inr dfields"
    then have "(case dfields of None \<Rightarrow> 1 | Some v \<Rightarrow> 4 * depth v + 4) < 4 * depth dep + 2"
      using prop_lt [of dep "''fields''"] by (cases dfields) auto
    then show "(Inl (Inl (dfields, names')), Inr (Inl (dep # rest, names)))
        \<in> measures [?rank, ?len]"
      by (auto simp: max_def)
  next
    fix dep :: json and rest names names'' :: "json list"
    show "(Inr (Inl (rest, names'')), Inr (Inl (dep # rest, names)))
        \<in> measures [?rank, ?len]"
      by (auto simp: max_def)
  next
    fix flt :: json and rest names :: "json list" and dff d
    assume "getProp flt ''dependentFormField'' = Inr dff" and "dff = Some d"
    then have "getProp flt ''dependentFormField'' = Inr (Some d)" by simp
    from prop_lt [OF this]
    show "(Inl (Inl (Some (JArr [d]), names)), Inr (Inr (flt # rest, names)))
        \<in> measures [?rank, ?len]"
      by (auto simp: max_def)
  next
    fix flt :: json and rest names names' :: "json list"
    show "(Inr (Inr (rest, names')), Inr (Inr (flt # rest, names)))
        \<in> measures [?rank, ?len]"
      by (auto simp: max_def)
  qed
qed

text \<open>\<open>for (const group of (form.fieldGroups || [])) scanFields(group.fields)\<close>\<close>

fun scanGroups :: "json list \<Rightarrow> json list \<Rightarrow> error + json list" where
  "scanGroups [] names = Inr names"
| "scanGroups (grp # rest) names =
     (case getProp grp ''fields'' of
        Inl e \<Rightarrow> Inl e
      | Inr gfields \<Rightarrow>
          (case scanFields gfields names of
             Inl e \<Rightarrow> Inl e
           | Inr names' \<Rightarrow> scanGroups rest names'))"

text \<open>\<open>for (const row of legacyFields) scanFields(row)\<close>\<close>

fun scanRows :: "json list \<Rightarrow> json list \<Rightarrow> error + json list" where
  "scanRows [] names = Inr names"
| "scanRows (row # rest) names =
     (case scanFields (Some row) names of
        Inl e \<Rightarrow> Inl e
      | Inr names' \<Rightarrow> scanRows rest names')"

fun isArray :: "json \<Rightarrow> bool" where
  "isArray (JArr xs) = True"
| "isArray v = False"

definition extractFormProps :: "json \<Rightarrow> error + json list" where
  "extractFormProps form =
     (case getProp form ''fieldGroups'' of
        Inl e \<Rightarrow> Inl e
      | Inr groups \<Rightarrow>
          (case iterateOrEmpty groups of
             Inl e \<Rightarrow> Inl e
           | Inr gs \<Rightarrow>
               (case scanGroups gs [] of
                  Inl e \<Rightarrow> Inl e
                | Inr names \<Rightarrow>
                    (case getProp form ''formFields'' of
                       Inl e \<Rightarrow> Inl e
                     | Inr legacyFields \<Rightarrow>
                         (case legacyFields of
                            Some (JArr (first # others)) \<Rightarrow>
                              if isArray first then scanRows (first # others) names
                              else scanFields legacyFields names
                          | Some (JArr []) \<Rightarrow> scanFields legacyFields names
                          | _ \<Rightarrow> Inr names)))))"

section \<open>Cursor Paginator\<close>








section \<open>Usage Aggregator\<close>

text \<open>
  The six source kinds, the \<open>type\<close> argument of \<open>addUsage\<close>: it is called with these six
  strings only.
\<close>

datatype kind = Workflows | Forms | Lists | Pipelines | Emails | Reports

fun kindName :: "kind \<Rightarrow> string" where
  "kindName Workflows = ''workflows''"
| "kindName Forms = ''forms''"
| "kindName Lists = ''lists''"
| "kindName Pipelines = ''pipelines''"
| "kindName Emails = ''emails''"
| "kindName Reports = ''reports''"

definition kindNamed :: "string \<Rightarrow> kind option" where
  "kindNamed key =
     (if key = ''workflows'' then Some Workflows
      else if key = ''forms'' then Some Forms
      else if key = ''lists'' then Some Lists
      else if key = ''pipelines'' then Some Pipelines
      else if key = ''emails'' then Some Emails
      else if key = ''reports'' then Some Reports
      else None)"

text \<open>
  An item name in a list of \<open>usageDetails\<close> is a value of the fetched item, and
  \<open>includes\<close> compares by SameValueZero: strings, numbers and booleans by value, an
  array or an object by identity. A name is therefore kept with the number of the
  item it is the name of; the items the scans fetch are numbered as they are met.
\<close>

type_synonym name = "json \<times> nat"

fun isPrimitive :: "json \<Rightarrow> bool" where
  "isPrimitive JNull = True"
| "isPrimitive (JBool b) = True"
| "isPrimitive (JNum n) = True"
| "isPrimitive (JStr s) = True"
| "isPrimitive (JArr xs) = False"
| "isPrimitive (JObj ms) = False"

definition sameValueZero :: "name \<Rightarrow> name \<Rightarrow> bool" where
  "sameValueZero a b = (fst a = fst b \<and> (isPrimitive (fst a) \<or> snd a = snd b))"

definition arrayIncludes :: "name list \<Rightarrow> name \<Rightarrow> bool" where
  "arrayIncludes names x = list_ex (\<lambda>n. sameValueZero n x) names"

text \<open>
  \<open>usageDetails\<close> is a plain object, \<open>{}\<close>, and \<open>usageDetails[propName]\<close> is read along
  its prototype chain. What it can yield: an entry the scan stored under that key
  (\<open>Own\<close>), \<open>Object.prototype\<close> itself (key \<open>__proto__\<close>), one of the functions that
  \<open>Object.prototype\<close> holds (\<open>constructor\<close>, which is \<open>Object\<close>, \<open>toString\<close>, ...), or an
  array that an earlier \<open>addUsage\<close> stored on \<open>Object.prototype\<close> under the name of a
  kind (\<open>Shared\<close>).
\<close>

datatype target = Own string | ObjectPrototype | Builtin string | Shared kind

definition objectPrototypeFunctions :: "string list" where
  "objectPrototypeFunctions =
     [''constructor'', ''__defineGetter__'', ''__defineSetter__'', ''hasOwnProperty'',
      ''__lookupGetter__'', ''__lookupSetter__'', ''isPrototypeOf'', ''propertyIsEnumerable'',
      ''toString'', ''valueOf'', ''toLocaleString'']"

text \<open>
  The objects \<open>addUsage\<close> reads and writes: the keys of the entries that \<open>usageDetails\<close>
  holds itself, in the order they were stored; the arrays stored under a kind on any
  of the objects above (those on \<open>Object.prototype\<close> and on its functions outlive the
  scan); and the number of items met so far.
\<close>

record provenance =
  ownKeys :: "string list"
  arrays :: "((target \<times> kind) \<times> name list) list"
  itemCount :: nat

fun setArray ::
  "target \<times> kind \<Rightarrow> name list \<Rightarrow> ((target \<times> kind) \<times> name list) list \<Rightarrow>
   ((target \<times> kind) \<times> name list) list" where
  "setArray k v [] = [(k, v)]"
| "setArray k v (x # xs) = (if fst x = k then (k, v) # xs else x # setArray k v xs)"

text \<open>
  \<open>if (!usageDetails[propName]) usageDetails[propName] = {}\<close>, and the object that
  \<open>usageDetails[propName]\<close> is afterwards. A new entry has no property of its own.
\<close>

definition entryOf :: "string \<Rightarrow> provenance \<Rightarrow> target \<times> provenance" where
  "entryOf key p =
     (let created = (Own key, p\<lparr>ownKeys := ownKeys p @ [key],
                                 arrays := filter (\<lambda>x. fst (fst x) \<noteq> Own key) (arrays p)\<rparr>)
      in if key \<in> set (ownKeys p) then (Own key, p)
         else if key = ''__proto__'' then (ObjectPrototype, p)
         else if key \<in> set objectPrototypeFunctions then (Builtin key, p)
         else (case kindNamed key of
                 None \<Rightarrow> created
               | Some k \<Rightarrow>
                   if map_of (arrays p) (ObjectPrototype, k) = None then created
                   else (Shared k, p)))"

text \<open>
  \<open>if (!usageDetails[propName][type]) usageDetails[propName][type] = []\<close>, and the
  object that holds the array \<open>usageDetails[propName][type]\<close> afterwards: the entry
  itself, or \<open>Object.prototype\<close>, from which every entry, function and array inherits.
\<close>

definition arrayOf :: "target \<Rightarrow> kind \<Rightarrow> provenance \<Rightarrow> target \<times> provenance" where
  "arrayOf t kind p =
     (if map_of (arrays p) (t, kind) \<noteq> None then (t, p)
      else if map_of (arrays p) (ObjectPrototype, kind) \<noteq> None then (ObjectPrototype, p)
      else (t, p\<lparr>arrays := setArray (t, kind) [] (arrays p)\<rparr>))"

definition addUsage :: "string \<Rightarrow> kind \<Rightarrow> name \<Rightarrow> provenance \<Rightarrow> provenance" where
  "addUsage propName kind sourceName p =
     (case entryOf propName p of
        (t, p1) \<Rightarrow>
          (case arrayOf t kind p1 of
             (holder, p2) \<Rightarrow>
               (case map_of (arrays p2) (holder, kind) of
                  None \<Rightarrow> p2
                | Some names \<Rightarrow>
                    if arrayIncludes names sourceName then p2
                    else p2\<lparr>arrays := setArray (holder, kind) (names @ [sourceName]) (arrays p2)\<rparr>)))"


text \<open>A process in which no scan has run yet.\<close>

definition freshProcess :: provenance where
  "freshProcess = \<lparr>ownKeys = [], arrays = [], itemCount = 0\<rparr>"



















section \<open>Notions the statements use\<close>

subsection \<open>Pagination\<close>









subsection \<open>Regular expressions\<close>

text \<open>A pattern is consuming when none of its matches is empty.\<close>

definition consuming :: "rx list \<Rightarrow> bool" where
  "consuming re = (\<forall>s gs ge g r. rxMatch re s gs ge = Some (g, r) \<longrightarrow> length r < length s)"

text \<open>
  The captures of all matches of a pattern in a text, at any position; and a pattern
  none of whose matches begins inside another.
\<close>

definition matches :: "rx list \<Rightarrow> string \<Rightarrow> string set" where
  "matches re s = {g. \<exists>i r. i \<le> length s \<and> rxMatch re (drop i s) (drop i s) (drop i s) = Some (g, r)}"

definition separate :: "rx list \<Rightarrow> bool" where
  "separate re =
     (\<forall>u g r j. rxMatch re u u u = Some (g, r) \<and> 0 < j \<and> j < length u - length r \<longrightarrow>
        rxMatch re (drop j u) (drop j u) (drop j u) = None)"

text \<open>
  What \<open>tokenRe\<close> matches at the start of \<open>s\<close>, read off the pattern from left to
  right: \<open>{{\<close>, the longest run of \<open>[a-z_]\<close> (not empty), a dot, the longest run of
  \<open>[a-z0-9_]\<close> (not empty, the group), \<open>}}\<close>.
\<close>

definition tokenAt :: "string \<Rightarrow> (string \<times> string) option" where
  "tokenAt s =
     (case s of
        a # b # r \<Rightarrow>
          if a = CHR ''{'' \<and> b = CHR ''{'' \<and> takeWhile isLowerOrUnderscore r \<noteq> [] then
            (case dropWhile isLowerOrUnderscore r of
               d # r2 \<Rightarrow>
                 if d = CHR ''.'' \<and> takeWhile isNameChar r2 \<noteq> [] then
                   (case dropWhile isNameChar r2 of
                      x # y # r4 \<Rightarrow>
                        if x = CHR ''}'' \<and> y = CHR ''}'' then Some (takeWhile isNameChar r2, r4) else None
                    | _ \<Rightarrow> None)
                 else None
             | [] \<Rightarrow> None)
          else None
      | _ \<Rightarrow> None)"

text \<open>
  The text holds a personalization placeholder \<open>{{source.fieldId}}\<close>: \<open>source\<close> is one
  or more of \<open>[a-z_]\<close>, \<open>fieldId\<close> one or more of \<open>[a-z0-9_]\<close>.
\<close>

definition placeholderIn :: "string \<Rightarrow> string \<Rightarrow> bool" where
  "placeholderIn text fieldId =
     (\<exists>pre source post.
        text = pre @ ''{{'' @ source @ ''.'' @ fieldId @ ''}}'' @ post \<and>
        source \<noteq> [] \<and> list_all isLowerOrUnderscore source \<and>
        fieldId \<noteq> [] \<and> list_all isNameChar fieldId)"

text \<open>The identifier shape of structural matching: \<open>[a-z][a-z0-9_]*\<close>.\<close>

definition identShape :: "string \<Rightarrow> bool" where
  "identShape v = (case v of [] \<Rightarrow> False | c # cs \<Rightarrow> isLower c \<and> list_all isNameChar cs)"

subsection \<open>Forms\<close>

text \<open>
  \<open>elems v\<close> are the values a loop over \<open>v || []\<close> visits, \<open>member v k\<close> is \<open>v.k\<close>; both
  are empty where the code would throw.
\<close>

definition elems :: "json option \<Rightarrow> json set" where
  "elems v = (case iterateOrEmpty v of Inr xs \<Rightarrow> set xs | Inl e \<Rightarrow> {})"

definition member :: "json \<Rightarrow> string \<Rightarrow> json option" where
  "member v k = (case getProp v k of Inr x \<Rightarrow> x | Inl e \<Rightarrow> None)"

text \<open>
  \<open>child f g\<close>: \<open>g\<close> is a conditional field of the field \<open>f\<close>, either some
  \<open>f.dependentFields[].dependentFieldFilters[].dependentFormField\<close> or an element of
  some legacy \<open>f.dependentFields[].fields\<close>.
\<close>

definition child :: "json \<Rightarrow> json \<Rightarrow> bool" where
  "child f g =
     (\<exists>dep \<in> elems (member f ''dependentFields'').
        (\<exists>flt \<in> elems (member dep ''dependentFieldFilters'').
           member flt ''dependentFormField'' = Some g \<and> truthy g) \<or>
        g \<in> elems (member dep ''fields''))"

text \<open>The names of the fields reachable from a field, and from the fields of a list.\<close>

definition named :: "json \<Rightarrow> json \<Rightarrow> bool" where
  "named f n = (member f ''name'' = Some n \<and> truthy n)"

definition namesFrom :: "json \<Rightarrow> json set" where
  "namesFrom f = {n. \<exists>g. child\<^sup>*\<^sup>* f g \<and> named g n}"

definition namesUnder :: "json option \<Rightarrow> json set" where
  "namesUnder flds = (\<Union>f \<in> elems flds. namesFrom f)"

text \<open>
  The field lists of a form: \<open>fieldGroups[].fields\<close>, and the legacy \<open>formFields\<close>,
  whose rows are the field lists when every element is an array, and which is the field
  list itself otherwise.
\<close>

definition groupLists :: "json \<Rightarrow> json option set" where
  "groupLists form = (\<lambda>grp. member grp ''fields'') ` elems (member form ''fieldGroups'')"

definition legacyLists :: "json \<Rightarrow> json option set" where
  "legacyLists form =
     (case member form ''formFields'' of
        Some (JArr xs) \<Rightarrow> if list_all isArray xs then Some ` set xs else {Some (JArr xs)}
      | _ \<Rightarrow> {})"

definition fieldNames :: "json \<Rightarrow> json set" where
  "fieldNames form = (\<Union>flds \<in> groupLists form \<union> legacyLists form. namesUnder flds)"

text \<open>The legacy list is a flat sequence of fields or a sequence of rows.\<close>

definition uniformLegacy :: "json \<Rightarrow> bool" where
  "uniformLegacy form =
     (case member form ''formFields'' of
        Some (JArr xs) \<Rightarrow> list_all isArray xs \<or> list_all (\<lambda>x. \<not> isArray x) xs
      | _ \<Rightarrow> True)"

text \<open>
  A form of the expected shape: what the walk iterates is iterable (absent, an array, a
  string or falsy), and what it reads a property of is not \<open>null\<close>.
\<close>

definition iterable :: "json option \<Rightarrow> bool" where
  "iterable v = (\<exists>xs. iterateOrEmpty v = Inr xs)"

definition okField :: "json \<Rightarrow> bool" where
  "okField f =
     (f \<noteq> JNull \<and> iterable (member f ''dependentFields'') \<and>
      (\<forall>dep \<in> elems (member f ''dependentFields'').
         dep \<noteq> JNull \<and> iterable (member dep ''dependentFieldFilters'') \<and>
         iterable (member dep ''fields'') \<and>
         (\<forall>flt \<in> elems (member dep ''dependentFieldFilters''). flt \<noteq> JNull)))"

definition allOk :: "json \<Rightarrow> bool" where
  "allOk f = (\<forall>g. child\<^sup>*\<^sup>* f g \<longrightarrow> okField g)"

definition okList :: "json option \<Rightarrow> bool" where
  "okList flds = (iterable flds \<and> (\<forall>f \<in> elems flds. allOk f))"

text \<open>The same, seen from one \<open>dependentFieldFilters\<close> entry and from one \<open>dependentFields\<close> entry.\<close>

definition dffNames :: "json \<Rightarrow> json set" where
  "dffNames flt =
     (case member flt ''dependentFormField'' of
        Some g \<Rightarrow> if truthy g then namesFrom g else {}
      | None \<Rightarrow> {})"

definition depNames :: "json \<Rightarrow> json set" where
  "depNames dep =
     (\<Union>flt \<in> elems (member dep ''dependentFieldFilters''). dffNames flt) \<union>
     namesUnder (member dep ''fields'')"

definition okFilter :: "json \<Rightarrow> bool" where
  "okFilter flt =
     (flt \<noteq> JNull \<and> (\<forall>g. member flt ''dependentFormField'' = Some g \<and> truthy g \<longrightarrow> allOk g))"

definition okDep :: "json \<Rightarrow> bool" where
  "okDep dep =
     (dep \<noteq> JNull \<and> iterable (member dep ''dependentFieldFilters'') \<and>
      (\<forall>flt \<in> elems (member dep ''dependentFieldFilters''). okFilter flt) \<and>
      okList (member dep ''fields''))"

definition formShaped :: "json \<Rightarrow> bool" where
  "formShaped form =
     (form \<noteq> JNull \<and> iterable (member form ''fieldGroups'') \<and>
      (\<forall>grp \<in> elems (member form ''fieldGroups''). grp \<noteq> JNull) \<and>
      (\<forall>flds \<in> groupLists form \<union> legacyLists form. okList flds))"

subsection \<open>Provenance\<close>











subsection \<open>A sample CRM\<close>









text \<open>A form with both version shapes: a conditional field, a legacy sub-list, and rows.\<close>

definition sampleForm :: json where
  "sampleForm =
     JObj [(''name'', JStr ''Signup''),
           (''fieldGroups'', JArr [JObj [(''fields'', JArr [
              JObj [(''name'', JStr ''email''),
                    (''dependentFields'', JArr [
                       JObj [(''dependentFieldFilters'', JArr [
                                JObj [(''dependentFormField'', JObj [(''name'', JStr ''city'')])]]),
                             (''fields'', JArr [JObj [(''name'', JStr ''old'')]])]])]])]]),
           (''formFields'', JArr [JArr [JObj [(''name'', JStr ''a'')], JObj [(''name'', JStr ''b'')]],
                                 JArr [JObj [(''name'', JStr ''email'')]]])]"


subsection \<open>Structural matching\<close>

text \<open>
  The ends of a key that \<open>propRe\<close> spells out: \<open>Property\<close> or \<open>property\<close>, alone or
  followed by \<open>Name\<close> or \<open>name\<close>.
\<close>

definition keyForms :: "string list" where
  "keyForms = [''Property'', ''property'', ''PropertyName'', ''Propertyname'',
               ''propertyName'', ''propertyname'']"

definition endsWith :: "string \<Rightarrow> string \<Rightarrow> bool" where
  "endsWith s t = (length t \<le> length s \<and> drop (length s - length t) s = t)"

definition keySuffix :: "string \<Rightarrow> bool" where
  "keySuffix l = (\<exists>w \<in> set keyForms. endsWith l w)"

text \<open>
  A key the pattern accepts: the letters \<open>[a-zA-Z]\<close> it ends with end in one of these
  spellings, and these letters are the whole key or follow a double quote in it.
\<close>

definition keyMatches :: "string \<Rightarrow> bool" where
  "keyMatches k =
     (let run = rev (takeWhile isLetter (rev k)); front = rev (dropWhile isLetter (rev k))
      in keySuffix run \<and> (front = [] \<or> last front = CHR 0x22))"

text \<open>
  The reference an entry \<open>k: v\<close> of an object makes, and the references of an item: those
  of the entries of every object in it, in the order of the serialized text.
\<close>

definition refOf :: "string \<Rightarrow> json \<Rightarrow> string list" where
  "refOf k v = (case v of JStr x \<Rightarrow> if keyMatches k \<and> identShape x then [x] else [] | _ \<Rightarrow> [])"

fun propRefs :: "json \<Rightarrow> string list"
  and propRefsElems :: "json list \<Rightarrow> string list"
  and propRefsMembers :: "(string \<times> json) list \<Rightarrow> string list" where
  "propRefs JNull = []"
| "propRefs (JBool b) = []"
| "propRefs (JNum n) = []"
| "propRefs (JStr s) = []"
| "propRefs (JArr xs) = propRefsElems xs"
| "propRefs (JObj ms) = propRefsMembers ms"
| "propRefsElems [] = []"
| "propRefsElems (x # xs) = propRefs x @ propRefsElems xs"
| "propRefsMembers [] = []"
| "propRefsMembers ((k, v) # ms) = refOf k v @ propRefs v @ propRefsMembers ms"

text \<open>
  The claim's reading of a key: it ends, whatever the case of its letters, in
  \<open>Property\<close> or \<open>PropertyName\<close>.
\<close>

definition keyEndsInsensitive :: "string \<Rightarrow> bool" where
  "keyEndsInsensitive k =
     (endsWith (toLowerCase k) ''property'' \<or> endsWith (toLowerCase k) ''propertyname'')"

text \<open>
  What \<open>propRe\<close> matches at the start of a text, read off the pattern from left to
  right: \<open>valueAt\<close> from the quote that closes the key, \<open>propAt\<close> from the quote before
  the letters of the key.
\<close>

definition valueAt :: "string \<Rightarrow> (string \<times> string) option" where
  "valueAt t =
     (case t of
        q # r2 \<Rightarrow>
          if q = CHR 0x22 then
            (case dropWhile isSpace r2 of
               col # r4 \<Rightarrow>
                 if col = CHR '':'' then
                   (case dropWhile isSpace r4 of
                      q2 # c # r7 \<Rightarrow>
                        if q2 = CHR 0x22 \<and> isLower c then
                          (case dropWhile isNameChar r7 of
                             q3 # r9 \<Rightarrow>
                               if q3 = CHR 0x22 then Some (c # takeWhile isNameChar r7, r9) else None
                           | [] \<Rightarrow> None)
                        else None
                    | _ \<Rightarrow> None)
                 else None
             | [] \<Rightarrow> None)
          else None
      | [] \<Rightarrow> None)"

definition propAt :: "string \<Rightarrow> (string \<times> string) option" where
  "propAt s =
     (case s of
        q # r \<Rightarrow>
          if q = CHR 0x22 \<and> keySuffix (takeWhile isLetter r) then valueAt (dropWhile isLetter r)
          else None
      | [] \<Rightarrow> None)"

section \<open>The matcher: termination of the extraction loops\<close>

lemma rxMatch_length: "rxMatch rs s gs ge = Some (g, r) \<Longrightarrow> length r \<le> length s"
proof (induction rs s gs ge arbitrary: g r rule: rxMatch.induct)
  case (1 s gs ge)
  then show ?case by simp
next
  case (2 p rs s gs ge)
  show ?case
  proof (cases s)
    case Nil
    with "2.prems" show ?thesis by simp
  next
    case (Cons c cs)
    with "2.prems" have pc: "p c" and m: "rxMatch rs cs gs ge = Some (g, r)"
      by (auto split: if_splits)
    from "2.IH" [OF Cons pc m] Cons show ?thesis by simp
  qed
next
  case (3 p rs s gs ge)
  show ?case
  proof (cases s)
    case Nil
    with 3 show ?thesis by simp
  next
    case (Cons c cs)
    show ?thesis
    proof (cases "p c")
      case False
      with 3 Cons show ?thesis by simp
    next
      case True
      show ?thesis
      proof (cases "rxMatch (Star p # rs) cs gs ge")
        case None
        with 3 Cons True show ?thesis by simp
      next
        case (Some x)
        with "3.prems" Cons True have "rxMatch (Star p # rs) cs gs ge = Some (g, r)" by simp
        from "3.IH"(2) [OF Cons True this] Cons show ?thesis by simp
      qed
    qed
  qed
next
  case (4 p rs s gs ge)
  then show ?case by simp
next
  case (5 ps rs s gs ge)
  then show ?case by (auto split: option.splits)
next
  case (6 rs s gs ge)
  then show ?case by simp
next
  case (7 rs s gs ge)
  then show ?case by simp
qed

lemma rxMatch_One_shorter:
  "rxMatch (One p # rs) s gs ge = Some (g, r) \<Longrightarrow> length r < length s"
  by (cases s) (auto split: if_splits dest: rxMatch_length)

lemma exec_shorter:
  "consuming re \<Longrightarrow> exec re s = Some (g, r) \<Longrightarrow> length r < length s"
proof (induction s)
  case Nil
  then show ?case by (fastforce simp: consuming_def)
next
  case (Cons c cs)
  show ?case
  proof (cases "rxMatch re (c # cs) (c # cs) (c # cs)")
    case None
    with Cons show ?thesis by auto
  next
    case (Some x)
    with Cons.prems show ?thesis by (fastforce simp: consuming_def)
  qed
qed

lemma execLoop_total: "consuming re \<Longrightarrow> \<exists>ns. execLoop re s names = Some ns"
proof (induction re s names rule: execLoop.induct)
  case (1 re s names)
  show ?case
  proof (cases "exec re s")
    case None
    then show ?thesis by (subst execLoop.simps) simp
  next
    case (Some x)
    obtain g rest where x: "x = (g, rest)" by (cases x)
    from exec_shorter [OF "1.prems"] Some x have l: "length rest < length s" by simp
    from "1.IH" [OF Some x [symmetric] l "1.prems"] obtain ns where "execLoop re rest (setAdd g names) = Some ns" by blast
    with Some x l show ?thesis by (subst execLoop.simps) simp
  qed
qed

lemma consuming_One: "consuming (One p # rs)"
  unfolding consuming_def using rxMatch_One_shorter by blast

lemma consuming_propRe: "consuming propRe"
proof -
  have "\<exists>p rs. propRe = One p # rs" by (simp add: propRe_def)
  then obtain p rs where e: "propRe = One p # rs" by blast
  show ?thesis unfolding e by (rule consuming_One)
qed

lemma consuming_tokenRe: "consuming tokenRe"
proof -
  have "\<exists>p rs. tokenRe = One p # rs" by (simp add: tokenRe_def)
  then obtain p rs where e: "tokenRe = One p # rs" by blast
  show ?thesis unfolding e by (rule consuming_One)
qed

lemma extractPropNamesFromJson_total: "\<exists>ns. extractPropNamesFromJson str = Some ns"
  unfolding extractPropNamesFromJson_def by (rule execLoop_total [OF consuming_propRe])


section \<open>The matcher: where the loop finds its matches\<close>

lemma rxMatch_suffix: "rxMatch rs s gs ge = Some (g, r) \<Longrightarrow> \<exists>m. s = m @ r"
proof (induction rs s gs ge arbitrary: g r rule: rxMatch.induct)
  case (1 s gs ge)
  then show ?case by simp
next
  case (2 p rs s gs ge)
  show ?case
  proof (cases s)
    case Nil
    with "2.prems" show ?thesis by simp
  next
    case (Cons c cs)
    with "2.prems" have pc: "p c" and m: "rxMatch rs cs gs ge = Some (g, r)"
      by (auto split: if_splits)
    from "2.IH" [OF Cons pc m] obtain m' where "cs = m' @ r" by blast
    with Cons have "s = (c # m') @ r" by simp
    then show ?thesis by blast
  qed
next
  case (3 p rs s gs ge)
  show ?case
  proof (cases s)
    case Nil
    with 3 show ?thesis by simp
  next
    case (Cons c cs)
    show ?thesis
    proof (cases "p c")
      case False
      with 3 Cons show ?thesis by simp
    next
      case True
      show ?thesis
      proof (cases "rxMatch (Star p # rs) cs gs ge")
        case None
        with 3 Cons True show ?thesis by simp
      next
        case (Some x)
        with "3.prems" Cons True have "rxMatch (Star p # rs) cs gs ge = Some (g, r)" by simp
        from "3.IH"(2) [OF Cons True this] obtain m' where "cs = m' @ r" by blast
        with Cons have "s = (c # m') @ r" by simp
        then show ?thesis by blast
      qed
    qed
  qed
next
  case (4 p rs s gs ge)
  then show ?case by simp
next
  case (5 ps rs s gs ge)
  then show ?case by (auto split: option.splits)
next
  case (6 rs s gs ge)
  then show ?case by simp
next
  case (7 rs s gs ge)
  then show ?case by simp
qed

lemma rxMatch_Star_block:
  assumes "\<forall>c cs gs ge. p c \<longrightarrow> rxMatch rs (c # cs) gs ge = None"
  shows "rxMatch (Star p # rs) s gs ge = rxMatch rs (dropWhile p s) gs ge"
proof (induction s)
  case Nil
  show ?case by simp
next
  case (Cons c cs)
  show ?case
  proof (cases "p c")
    case False
    then show ?thesis by simp
  next
    case True
    show ?thesis
    proof (cases "rxMatch rs (dropWhile p cs) gs ge")
      case None
      with True Cons assms show ?thesis by simp
    next
      case (Some x)
      with True Cons show ?thesis by simp
    qed
  qed
qed

lemma rxMatch_Plus_block:
  assumes "\<forall>c cs gs ge. p c \<longrightarrow> rxMatch rs (c # cs) gs ge = None"
  shows "rxMatch (Plus p # rs) s gs ge =
     (if takeWhile p s = [] then None else rxMatch rs (dropWhile p s) gs ge)"
  by (cases s) (simp_all add: rxMatch_Star_block [OF assms] del: rxMatch.simps(3))

lemma exec_None: "exec re s = None \<Longrightarrow> i \<le> length s \<Longrightarrow> rxMatch re (drop i s) (drop i s) (drop i s) = None"
proof (induction s arbitrary: i)
  case Nil
  then show ?case by simp
next
  case (Cons c cs)
  from Cons.prems(1) have a: "rxMatch re (c # cs) (c # cs) (c # cs) = None" and b: "exec re cs = None"
    by (auto split: option.splits)
  show ?case
  proof (cases i)
    case 0
    with a show ?thesis by simp
  next
    case (Suc j)
    with Cons.prems(2) have "j \<le> length cs" by simp
    from Cons.IH [OF b this] Suc show ?thesis by simp
  qed
qed

lemma exec_Some:
  "exec re s = Some x \<Longrightarrow>
   \<exists>i\<le>length s. rxMatch re (drop i s) (drop i s) (drop i s) = Some x \<and>
     (\<forall>j<i. rxMatch re (drop j s) (drop j s) (drop j s) = None)"
proof (induction s)
  case Nil
  then show ?case by simp
next
  case (Cons c cs)
  show ?case
  proof (cases "rxMatch re (c # cs) (c # cs) (c # cs)")
    case (Some y)
    with Cons.prems have "rxMatch re (drop 0 (c # cs)) (drop 0 (c # cs)) (drop 0 (c # cs)) = Some x"
      by simp
    then show ?thesis by (intro exI [of _ 0]) simp
  next
    case None
    with Cons.prems have "exec re cs = Some x" by simp
    from Cons.IH [OF this] obtain i where i: "i \<le> length cs"
      and m: "rxMatch re (drop i cs) (drop i cs) (drop i cs) = Some x"
      and n: "\<forall>j<i. rxMatch re (drop j cs) (drop j cs) (drop j cs) = None" by blast
    have "\<forall>j<Suc i. rxMatch re (drop j (c # cs)) (drop j (c # cs)) (drop j (c # cs)) = None"
    proof (intro allI impI)
      fix j assume "j < Suc i"
      then show "rxMatch re (drop j (c # cs)) (drop j (c # cs)) (drop j (c # cs)) = None"
        using None n by (cases j) simp_all
    qed
    with i m show ?thesis by (intro exI [of _ "Suc i"]) simp
  qed
qed

lemma matches_step:
  assumes c: "consuming re" and sep: "separate re"
    and e: "exec re s = Some (g, rest)"
  shows "matches re s = insert g (matches re rest)"
proof -
  from exec_Some [OF e] obtain i where i: "i \<le> length s"
    and m: "rxMatch re (drop i s) (drop i s) (drop i s) = Some (g, rest)"
    and n: "\<forall>j<i. rxMatch re (drop j s) (drop j s) (drop j s) = None" by blast
  from rxMatch_suffix [OF m] obtain mid where mid: "drop i s = mid @ rest" by blast
  from c [unfolded consuming_def, rule_format, OF m]
  have lt: "length rest < length (drop i s)" .
  define k where "k = length s - length rest"
  from mid have len: "length s - i = length mid + length rest"
    by (metis length_append length_drop)
  from lt mid have ml: "0 < length mid" by simp
  from len ml i have ik: "i < k" and kl: "k \<le> length s" and k: "k = i + length mid"
    unfolding k_def by linarith+
  have rest: "rest = drop k s"
  proof -
    have "drop k s = drop (length mid) (drop i s)" by (simp add: k add.commute)
    with mid show ?thesis by simp
  qed
  show ?thesis
  proof (intro set_eqI iffI)
    fix h
    assume "h \<in> matches re s"
    then obtain j r where j: "j \<le> length s"
      and hj: "rxMatch re (drop j s) (drop j s) (drop j s) = Some (h, r)"
      by (auto simp: matches_def)
    consider "j < i" | "j = i" | "i < j" "j < k" | "k \<le> j" by linarith
    then show "h \<in> insert g (matches re rest)"
    proof cases
      case 1
      with n hj show ?thesis by simp
    next
      case 2
      with m hj show ?thesis by simp
    next
      case 3
      have d: "drop j s = drop (j - i) (drop i s)" using 3 by simp
      have "0 < j - i" using 3 by simp
      moreover have "j - i < length (drop i s) - length rest" using 3 k len by simp
      ultimately have "rxMatch re (drop (j - i) (drop i s)) (drop (j - i) (drop i s)) (drop (j - i) (drop i s)) = None"
        using sep m unfolding separate_def by blast
      with hj d show ?thesis by simp
    next
      case 4
      have "drop j s = drop (j - k) rest" using 4 rest by simp
      moreover have "j - k \<le> length rest" using 4 j rest by simp
      ultimately have "h \<in> matches re rest" using hj by (auto simp: matches_def)
      then show ?thesis by simp
    qed
  next
    fix h
    assume "h \<in> insert g (matches re rest)"
    then consider "h = g" | "h \<in> matches re rest" by auto
    then show "h \<in> matches re s"
    proof cases
      case 1
      with i m show ?thesis by (auto simp: matches_def)
    next
      case 2
      then obtain j r where j: "j \<le> length rest"
        and hj: "rxMatch re (drop j rest) (drop j rest) (drop j rest) = Some (h, r)"
        by (auto simp: matches_def)
      have "drop j rest = drop (j + k) s" using rest by simp
      moreover have "j + k \<le> length s" using j rest kl by simp
      ultimately show ?thesis using hj unfolding matches_def by auto
    qed
  qed
qed

lemma matches_none: "exec re s = None \<Longrightarrow> matches re s = {}"
  using exec_None by (fastforce simp: matches_def)

lemma execLoop_matches:
  "consuming re \<Longrightarrow> separate re \<Longrightarrow> execLoop re s names = Some ns \<Longrightarrow>
   set ns = set names \<union> matches re s"
proof (induction re s names rule: execLoop.induct)
  case (1 re s names)
  show ?case
  proof (cases "exec re s")
    case None
    with "1.prems"(3) have "ns = names" by (subst (asm) execLoop.simps) simp
    with matches_none [OF None] show ?thesis by simp
  next
    case (Some x)
    obtain g rest where x: "x = (g, rest)" by (cases x)
    from exec_shorter [OF "1.prems"(1)] Some x have l: "length rest < length s" by simp
    from "1.prems"(3) Some x l have "execLoop re rest (setAdd g names) = Some ns"
      by (subst (asm) execLoop.simps) simp
    from "1.IH" [OF Some x [symmetric] l "1.prems"(1,2) this]
    have "set ns = set (setAdd g names) \<union> matches re rest" .
    moreover from matches_step [OF "1.prems"(1,2)] Some x
    have "matches re s = insert g (matches re rest)" by simp
    ultimately show ?thesis by (auto simp: setAdd_def)
  qed
qed

section \<open>Name Sanitizer: proofs\<close>

lemma code_underscore: "code CHR ''_'' = 95" by (simp add: code_def)

lemma isNameChar_not_space: "isNameChar c \<Longrightarrow> \<not> isSpace c"
  by (auto simp: isNameChar_def isSpace_def isLower_def isDigit_def code_def)

lemma isNameChar_lower_id: "isNameChar c \<Longrightarrow> toLowerChar c = c"
  by (auto simp: isNameChar_def toLowerChar_def isLower_def isDigit_def isUpper_def code_def)

lemma isSpace_lower_id: "isSpace c \<Longrightarrow> toLowerChar c = c"
  by (auto simp: isSpace_def toLowerChar_def isUpper_def)

lemma isNameChar_p: "isNameChar CHR ''p''" "isNameChar CHR ''_''" "\<not> isDigit CHR ''p''"
  by (simp_all add: isNameChar_def isLower_def isDigit_def code_def)

lemma trim_no_space: "\<forall>c\<in>set s. \<not> isSpace c \<Longrightarrow> trim s = s"
proof (cases s rule: rev_cases)
  case Nil
  then show ?thesis by (simp add: trim_def)
next
  case (snoc ys y)
  assume a: "\<forall>c\<in>set s. \<not> isSpace c"
  then have "dropWhile isSpace s = s" by (cases s) auto
  moreover from a snoc have "dropWhile isSpace (rev s) = rev s" by simp
  ultimately show ?thesis by (simp add: trim_def)
qed

lemma trim_all_space: "\<forall>c\<in>set s. isSpace c \<Longrightarrow> trim s = []"
proof -
  assume "\<forall>c\<in>set s. isSpace c"
  then have d: "dropWhile isSpace s = []" by (induction s) auto
  show ?thesis unfolding trim_def d by simp
qed

lemma replaceSpaces_no_space: "\<forall>c\<in>set s. \<not> isSpace c \<Longrightarrow> replaceSpaces b s = s"
  by (induction s arbitrary: b) auto

lemma set_toInternalName: "c \<in> set (toInternalName l) \<Longrightarrow> isNameChar c"
proof -
  define n where "n = dropOthers (replaceSpaces False (trim (toLowerCase l)))"
  have n: "\<forall>x\<in>set n. isNameChar x" by (simp add: n_def dropOthers_def)
  assume "c \<in> set (toInternalName l)"
  then have "c \<in> set (case n of c # _ \<Rightarrow> if isDigit c then ''p_'' @ n else n | [] \<Rightarrow> n)"
    by (auto simp: toInternalName_def n_def [symmetric] dest: in_set_takeD)
  with n show ?thesis
    by (cases n) (auto simp: isNameChar_p split: if_splits)
qed

lemma hd_toInternalName: "toInternalName l \<noteq> [] \<Longrightarrow> \<not> isDigit (hd (toInternalName l))"
  by (auto simp: toInternalName_def Let_def isNameChar_p split: list.splits if_splits)

lemma length_toInternalName: "length (toInternalName l) \<le> 250"
  by (simp add: toInternalName_def Let_def)

lemma toInternalName_spaces: "\<forall>c\<in>set l. isSpace c \<Longrightarrow> toInternalName l = []"
proof -
  assume a: "\<forall>c\<in>set l. isSpace c"
  then have "toLowerCase l = l" by (simp add: toLowerCase_def isSpace_lower_id map_idI)
  with a show ?thesis by (simp add: toInternalName_def trim_all_space dropOthers_def)
qed

lemma toInternalName_fixed:
  assumes "\<forall>c\<in>set r. isNameChar c" and "r \<noteq> [] \<longrightarrow> \<not> isDigit (hd r)" and "length r \<le> 250"
  shows "toInternalName r = r"
proof -
  from assms(1) have ns: "\<forall>c\<in>set r. \<not> isSpace c" by (simp add: isNameChar_not_space)
  from assms(1) have "toLowerCase r = r" by (simp add: toLowerCase_def isNameChar_lower_id map_idI)
  moreover from ns have "trim r = r" by (rule trim_no_space)
  moreover from ns have "replaceSpaces False r = r" by (rule replaceSpaces_no_space)
  moreover from assms(1) have "dropOthers r = r" by (simp add: dropOthers_def)
  ultimately show ?thesis using assms(2,3)
    by (cases r) (simp_all add: toInternalName_def)
qed

text \<open>
  Claim C8. The Name Sanitizer is idempotent: sanitising its own output changes nothing,
  also when the output carries the \<open>p_\<close> prefix or was cut at 250 characters.
\<close>

theorem toInternalName_idempotent: "toInternalName (toInternalName l) = toInternalName l"
  by (rule toInternalName_fixed)
     (simp_all add: set_toInternalName hd_toInternalName length_toInternalName)

text \<open>
  Claim C7. For every label the sanitised name consists of characters of \<open>[a-z0-9_]\<close>
  only, does not start with a digit when it is not empty (a name that would start with
  a digit gets the prefix \<open>p_\<close>), is at most 250 characters long, and is empty for an
  empty or white-space-only label.
\<close>

theorem toInternalName_shape:
  "(\<forall>c\<in>set (toInternalName l). isNameChar c) \<and>
   (toInternalName l \<noteq> [] \<longrightarrow> \<not> isDigit (hd (toInternalName l))) \<and>
   length (toInternalName l) \<le> 250 \<and>
   (let n = dropOthers (replaceSpaces False (trim (toLowerCase l)))
    in n \<noteq> [] \<and> isDigit (hd n) \<longrightarrow> toInternalName l = take 250 (''p_'' @ n)) \<and>
   ((\<forall>c\<in>set l. isSpace c) \<longrightarrow> toInternalName l = [])"
proof -
  have "let n = dropOthers (replaceSpaces False (trim (toLowerCase l)))
    in n \<noteq> [] \<and> isDigit (hd n) \<longrightarrow> toInternalName l = take 250 (''p_'' @ n)"
    by (auto simp: toInternalName_def Let_def split: list.splits)
  then show ?thesis
    using set_toInternalName [of _ l] hd_toInternalName [of l] length_toInternalName [of l]
      toInternalName_spaces [of l]
    by blast
qed

theorem toInternalName_shape_witness:
  "toInternalName ''9 Lives!'' = ''p_9_lives'' \<and> toInternalName '' '' = [] \<and>
   isNameChar CHR ''9'' \<and> \<not> isDigit (hd ''p_9_lives'') \<and> length ''p_9_lives'' \<le> 250"
proof -
  have a: "toInternalName ''9 Lives!'' = ''p_9_lives''" by code_simp
  have sp: "\<forall>c\<in>set '' ''. isSpace c" by (simp add: isSpace_def code_def)
  from toInternalName_shape [of "'' ''"] sp have b: "toInternalName '' '' = []" by blast
  from toInternalName_shape [of "''9 Lives!''"]
  have "(\<forall>c\<in>set (toInternalName ''9 Lives!''). isNameChar c) \<and>
        (toInternalName ''9 Lives!'' \<noteq> [] \<longrightarrow> \<not> isDigit (hd (toInternalName ''9 Lives!''))) \<and>
        length (toInternalName ''9 Lives!'') \<le> 250"
    by blast
  with a b show ?thesis by simp
qed

section \<open>Option List Parser: proofs\<close>

lemma trim_Nil_iff: "trim s = [] \<longleftrightarrow> (\<forall>c\<in>set s. isSpace c)"
proof
  assume t: "trim s = []"
  show "\<forall>c\<in>set s. isSpace c"
  proof (cases "dropWhile isSpace s")
    case Nil
    then show ?thesis by (simp add: dropWhile_eq_Nil_conv)
  next
    case (Cons y ys)
    then have "\<not> isSpace y" using hd_dropWhile [of isSpace s] by auto
    moreover from t have "\<forall>c\<in>set (rev (dropWhile isSpace s)). isSpace c"
      unfolding trim_def by (simp add: dropWhile_eq_Nil_conv)
    ultimately show ?thesis using Cons by simp
  qed
next
  assume "\<forall>c\<in>set s. isSpace c"
  then show "trim s = []" by (rule trim_all_space)
qed

lemma split_no_sep: "sep \<notin> set s \<Longrightarrow> split sep s = [s]"
  by (induction s) auto

lemma not_space_semicolon: "\<not> isSpace CHR '';''"
  by (simp add: isSpace_def code_def)

lemma labels_blank:
  assumes "trim s = []"
  shows "filter (\<lambda>p. p \<noteq> []) (map trim (split CHR '';'' s)) = []"
proof -
  from assms have sp: "\<forall>c\<in>set s. isSpace c" by (simp add: trim_Nil_iff)
  then have "CHR '';'' \<notin> set s" using not_space_semicolon by auto
  then have "split CHR '';'' s = [s]" by (rule split_no_sep)
  with assms show ?thesis by simp
qed

lemma parseOptions_eq:
  "parseOptions s =
     (let labels = filter (\<lambda>p. p \<noteq> []) (map trim (split CHR '';'' s))
      in map (\<lambda>(l, i). mkOption l i) (zip labels [0..<length labels]))"
proof (cases "s = [] \<or> trim s = []")
  case True
  then have "trim s = []" by (auto simp: trim_def)
  then show ?thesis by (simp add: parseOptions_def labels_blank)
next
  case False
  then show ?thesis by (simp add: parseOptions_def)
qed

text \<open>
  Claim C9. The Option List Parser splits on \<open>;\<close>, trims each piece and drops the empty
  ones; the surviving label at index \<open>i\<close> (counted after the filter) becomes the option
  with that label, the sanitised label as value, or \<open>option_i\<close> when that is empty,
  display order \<open>i\<close> and \<open>hidden = false\<close>. The input \<open>A;B;;  C ;\<close> gives the three
  options A, B, C with orders 0, 1, 2, and a blank input gives no option.
\<close>

theorem parseOptions_spec:
  "(let labels = filter (\<lambda>p. p \<noteq> []) (map trim (split CHR '';'' s)) in
      length (parseOptions s) = length labels \<and>
      (\<forall>i < length labels. parseOptions s ! i =
         \<lparr>label = labels ! i,
          ovalue = (if toInternalName (labels ! i) = [] then ''option_'' @ showNat i
                    else toInternalName (labels ! i)),
          displayOrder = i, hidden = False\<rparr>)) \<and>
   parseOptions ''A;B;;  C ;'' =
     [\<lparr>label = ''A'', ovalue = ''a'', displayOrder = 0, hidden = False\<rparr>,
      \<lparr>label = ''B'', ovalue = ''b'', displayOrder = 1, hidden = False\<rparr>,
      \<lparr>label = ''C'', ovalue = ''c'', displayOrder = 2, hidden = False\<rparr>] \<and>
   ((\<forall>c\<in>set s. isSpace c) \<longrightarrow> parseOptions s = [])"
proof -
  have ex: "parseOptions ''A;B;;  C ;'' =
     [\<lparr>label = ''A'', ovalue = ''a'', displayOrder = 0, hidden = False\<rparr>,
      \<lparr>label = ''B'', ovalue = ''b'', displayOrder = 1, hidden = False\<rparr>,
      \<lparr>label = ''C'', ovalue = ''c'', displayOrder = 2, hidden = False\<rparr>]"
    by code_simp
  have blank: "(\<forall>c\<in>set s. isSpace c) \<longrightarrow> parseOptions s = []"
    by (simp add: parseOptions_def trim_Nil_iff)
  have gen: "(let labels = filter (\<lambda>p. p \<noteq> []) (map trim (split CHR '';'' s)) in
      length (parseOptions s) = length labels \<and>
      (\<forall>i < length labels. parseOptions s ! i =
         \<lparr>label = labels ! i,
          ovalue = (if toInternalName (labels ! i) = [] then ''option_'' @ showNat i
                    else toInternalName (labels ! i)),
          displayOrder = i, hidden = False\<rparr>))"
    by (simp add: parseOptions_eq Let_def mkOption_def)
  from gen ex blank show ?thesis by blast
qed

theorem parseOptions_spec_witness:
  "length (parseOptions ''x; !;9'') = 3 \<and>
   parseOptions ''x; !;9'' ! 1 =
      \<lparr>label = ''!'', ovalue = ''option_1'', displayOrder = 1, hidden = False\<rparr> \<and>
   parseOptions ''  '' = []"
proof -
  have l: "filter (\<lambda>p. p \<noteq> []) (map trim (split CHR '';'' ''x; !;9'')) = [''x'', ''!'', ''9'']"
    by code_simp
  have v: "toInternalName ''!'' = []" "showNat (Suc 0) = ''1''"
    by code_simp+
  have sp: "\<forall>c\<in>set ''  ''. isSpace c" by (simp add: isSpace_def code_def)
  have a: "length (parseOptions ''x; !;9'') = 3"
    and b: "\<forall>i<3. parseOptions ''x; !;9'' ! i =
         \<lparr>label = [''x'', ''!'', ''9''] ! i,
          ovalue = (if toInternalName ([''x'', ''!'', ''9''] ! i) = [] then ''option_'' @ showNat i
                    else toInternalName ([''x'', ''!'', ''9''] ! i)),
          displayOrder = i, hidden = False\<rparr>"
    using parseOptions_spec [of "''x; !;9''"] unfolding l Let_def by simp_all
  from b have "parseOptions ''x; !;9'' ! 1 =
         \<lparr>label = [''x'', ''!'', ''9''] ! 1,
          ovalue = (if toInternalName ([''x'', ''!'', ''9''] ! 1) = [] then ''option_'' @ showNat 1
                    else toInternalName ([''x'', ''!'', ''9''] ! 1)),
          displayOrder = 1, hidden = False\<rparr>" by simp
  then have c: "parseOptions ''x; !;9'' ! 1 =
      \<lparr>label = ''!'', ovalue = ''option_1'', displayOrder = 1, hidden = False\<rparr>"
    by (simp add: v)
  from parseOptions_spec [of "''  ''"] sp have "parseOptions ''  '' = []" by blast
  with a c show ?thesis by simp
qed

section \<open>Cursor Paginator: proofs\<close>

















section \<open>The sample CRM, evaluated\<close>








section \<open>Usage Aggregator: the provenance invariant\<close>
























text \<open>
  Keys that \<open>usageDetails\<close> inherits: under \<open>__proto__\<close> the list is stored on
  \<open>Object.prototype\<close>, and the next field reads that list through its new entry and
  gets no list of its own; under \<open>constructor\<close> the list is stored on \<open>Object\<close>.
\<close>

lemma addUsage_inherited:
  "addUsage ''city'' Workflows (JStr ''B'', 1)
     (addUsage ''__proto__'' Workflows (JStr ''A'', 0) freshProcess)
     = \<lparr>ownKeys = [''city''],
        arrays = [((ObjectPrototype, Workflows), [(JStr ''A'', 0), (JStr ''B'', 1)])],
        itemCount = 0\<rparr> \<and>
   addUsage ''constructor'' Workflows (JStr ''A'', 0) freshProcess
     = \<lparr>ownKeys = [],
        arrays = [((Builtin ''constructor'', Workflows), [(JStr ''A'', 0)])],
        itemCount = 0\<rparr>"
  by code_simp




section \<open>Usage Aggregator: failing sources\<close>























section \<open>Reference Extractor: embedded tokens\<close>

lemma take_length_dropWhile: "take (length xs - length (dropWhile P xs)) xs = takeWhile P xs"
proof -
  have "length xs = length (takeWhile P xs) + length (dropWhile P xs)"
    by (metis length_append takeWhile_dropWhile_id)
  then have "length xs - length (dropWhile P xs) = length (takeWhile P xs)" by simp
  then show ?thesis
    by (metis append_eq_conv_conj takeWhile_dropWhile_id)
qed

lemma class_facts:
  "isLowerOrUnderscore c \<Longrightarrow> c \<noteq> CHR ''.''"
  "isLowerOrUnderscore c \<Longrightarrow> c \<noteq> CHR ''{''"
  "isNameChar c \<Longrightarrow> c \<noteq> CHR ''}''"
  "isNameChar c \<Longrightarrow> c \<noteq> CHR ''{''"
  "isNameChar c \<Longrightarrow> c \<noteq> CHR 0x22"
  "isLower c \<Longrightarrow> isNameChar c"
  "isLetter c \<Longrightarrow> c \<noteq> CHR 0x22"
  "isSpace c \<Longrightarrow> c \<noteq> CHR '':''"
  "isSpace c \<Longrightarrow> c \<noteq> CHR 0x22"
  by (auto simp: isLowerOrUnderscore_def isNameChar_def isLower_def isDigit_def isLetter_def
      isUpper_def isSpace_def code_def)

lemma rxMatch_tokenRe: "rxMatch tokenRe s gs ge = tokenAt s"
proof -
  let ?close = "[GroupClose, One (isChar CHR ''}''), One (isChar CHR ''}'')]"
  let ?dot = "One (isChar CHR ''.'') # GroupOpen # Plus isNameChar # ?close"
  have b1: "\<forall>c cs gs ge. isNameChar c \<longrightarrow> rxMatch ?close (c # cs) gs ge = None"
    using class_facts(3) by (simp add: isChar_def)
  have b2: "\<forall>c cs gs ge. isLowerOrUnderscore c \<longrightarrow> rxMatch ?dot (c # cs) gs ge = None"
    using class_facts(1) by (simp add: isChar_def)
  have close: "\<And>r2 r3 gs ge. rxMatch ?close r3 r2 ge =
      (case r3 of x # y # r4 \<Rightarrow> if x = CHR ''}'' \<and> y = CHR ''}''
          then Some (take (length r2 - length r3) r2, r4) else None | _ \<Rightarrow> None)"
    by (simp add: isChar_def split: list.splits)
  have close2: "\<And>r2 ge. rxMatch ?close (dropWhile isNameChar r2) r2 ge =
      (case dropWhile isNameChar r2 of x # y # r4 \<Rightarrow> if x = CHR ''}'' \<and> y = CHR ''}''
          then Some (takeWhile isNameChar r2, r4) else None | _ \<Rightarrow> None)"
    unfolding close take_length_dropWhile by (rule refl)
  have grp: "\<And>r2 gs ge. rxMatch (GroupOpen # Plus isNameChar # ?close) r2 gs ge =
      (if takeWhile isNameChar r2 = [] then None
       else case dropWhile isNameChar r2 of x # y # r4 \<Rightarrow> if x = CHR ''}'' \<and> y = CHR ''}''
          then Some (takeWhile isNameChar r2, r4) else None | _ \<Rightarrow> None)"
    unfolding rxMatch.simps(6) rxMatch_Plus_block [where p = isNameChar, OF b1] close2 by (rule refl)
  have dot: "\<And>r1 gs ge. rxMatch ?dot r1 gs ge =
      (case r1 of d # r2 \<Rightarrow>
         if d = CHR ''.'' \<and> takeWhile isNameChar r2 \<noteq> [] then
           (case dropWhile isNameChar r2 of
              x # y # r4 \<Rightarrow>
                if x = CHR ''}'' \<and> y = CHR ''}'' then Some (takeWhile isNameChar r2, r4) else None
            | _ \<Rightarrow> None)
         else None
       | [] \<Rightarrow> None)"
  proof -
    fix r1 :: string and gs ge :: string
    show "rxMatch ?dot r1 gs ge =
      (case r1 of d # r2 \<Rightarrow>
         if d = CHR ''.'' \<and> takeWhile isNameChar r2 \<noteq> [] then
           (case dropWhile isNameChar r2 of
              x # y # r4 \<Rightarrow>
                if x = CHR ''}'' \<and> y = CHR ''}'' then Some (takeWhile isNameChar r2, r4) else None
            | _ \<Rightarrow> None)
         else None
       | [] \<Rightarrow> None)"
      unfolding rxMatch.simps(2) grp by (cases r1) (simp_all add: isChar_def)
  qed
  have lu: "\<And>r gs ge. rxMatch (Plus isLowerOrUnderscore # ?dot) r gs ge =
      (if takeWhile isLowerOrUnderscore r = [] then None
       else case dropWhile isLowerOrUnderscore r of d # r2 \<Rightarrow>
         if d = CHR ''.'' \<and> takeWhile isNameChar r2 \<noteq> [] then
           (case dropWhile isNameChar r2 of
              x # y # r4 \<Rightarrow>
                if x = CHR ''}'' \<and> y = CHR ''}'' then Some (takeWhile isNameChar r2, r4) else None
            | _ \<Rightarrow> None)
         else None
       | [] \<Rightarrow> None)"
    unfolding rxMatch_Plus_block [where p = isLowerOrUnderscore, OF b2] dot by (rule refl)
  show ?thesis
    unfolding tokenRe_def tokenAt_def rxMatch.simps(2) lu
    by (simp add: isChar_def split: list.splits)
qed

lemma tokenAt_iff:
  "tokenAt s = Some (fid, r) \<longleftrightarrow>
     (\<exists>src. s = ''{{'' @ src @ ''.'' @ fid @ ''}}'' @ r \<and>
        src \<noteq> [] \<and> list_all isLowerOrUnderscore src \<and> fid \<noteq> [] \<and> list_all isNameChar fid)"
proof
  assume t: "tokenAt s = Some (fid, r)"
  then obtain r0 where s: "s = CHR ''{'' # CHR ''{'' # r0"
    and src: "takeWhile isLowerOrUnderscore r0 \<noteq> []"
    and rest: "(case dropWhile isLowerOrUnderscore r0 of
               d # r2 \<Rightarrow>
                 if d = CHR ''.'' \<and> takeWhile isNameChar r2 \<noteq> [] then
                   (case dropWhile isNameChar r2 of
                      x # y # r4 \<Rightarrow>
                        if x = CHR ''}'' \<and> y = CHR ''}'' then Some (takeWhile isNameChar r2, r4) else None
                    | _ \<Rightarrow> None)
                 else None
             | [] \<Rightarrow> None) = Some (fid, r)"
    unfolding tokenAt_def by (auto split: list.splits if_splits)
  from rest obtain r2 where d: "dropWhile isLowerOrUnderscore r0 = CHR ''.'' # r2"
    and f: "takeWhile isNameChar r2 \<noteq> []"
    and rest2: "(case dropWhile isNameChar r2 of
                      x # y # r4 \<Rightarrow>
                        if x = CHR ''}'' \<and> y = CHR ''}'' then Some (takeWhile isNameChar r2, r4) else None
                    | _ \<Rightarrow> None) = Some (fid, r)"
    by (auto split: list.splits if_splits)
  from rest2 have e: "dropWhile isNameChar r2 = CHR ''}'' # CHR ''}'' # r"
    and fid: "fid = takeWhile isNameChar r2"
    by (auto split: list.splits if_splits)
  have "r0 = takeWhile isLowerOrUnderscore r0 @ dropWhile isLowerOrUnderscore r0" by simp
  moreover have "r2 = takeWhile isNameChar r2 @ dropWhile isNameChar r2" by simp
  ultimately have "s = ''{{'' @ takeWhile isLowerOrUnderscore r0 @ ''.'' @ fid @ ''}}'' @ r"
    using s d e fid by simp
  moreover have "list_all isLowerOrUnderscore (takeWhile isLowerOrUnderscore r0)"
    by (auto simp: list_all_iff dest: set_takeWhileD)
  moreover have "list_all isNameChar fid"
    unfolding fid by (auto simp: list_all_iff dest: set_takeWhileD)
  ultimately show "\<exists>src. s = ''{{'' @ src @ ''.'' @ fid @ ''}}'' @ r \<and>
        src \<noteq> [] \<and> list_all isLowerOrUnderscore src \<and> fid \<noteq> [] \<and> list_all isNameChar fid"
    using src f fid by blast
next
  assume "\<exists>src. s = ''{{'' @ src @ ''.'' @ fid @ ''}}'' @ r \<and>
        src \<noteq> [] \<and> list_all isLowerOrUnderscore src \<and> fid \<noteq> [] \<and> list_all isNameChar fid"
  then obtain src where s: "s = ''{{'' @ src @ ''.'' @ fid @ ''}}'' @ r"
    and src: "src \<noteq> []" "list_all isLowerOrUnderscore src"
    and fid: "fid \<noteq> []" "list_all isNameChar fid" by blast
  have nd: "\<not> isLowerOrUnderscore CHR ''.''" using class_facts(1) by blast
  have nb: "\<not> isNameChar CHR ''}''" using class_facts(3) by blast
  let ?r2 = "fid @ CHR ''}'' # CHR ''}'' # r"
  let ?r0 = "src @ CHR ''.'' # ?r2"
  have t1: "takeWhile isLowerOrUnderscore ?r0 = src"
    using src(2) nd by (simp add: list_all_iff takeWhile_append2)
  have d1: "dropWhile isLowerOrUnderscore ?r0 = CHR ''.'' # ?r2"
    using src(2) nd by (simp add: list_all_iff dropWhile_append2)
  have t2: "takeWhile isNameChar ?r2 = fid"
    using fid(2) nb by (simp add: list_all_iff takeWhile_append2)
  have d2: "dropWhile isNameChar ?r2 = CHR ''}'' # CHR ''}'' # r"
    using fid(2) nb by (simp add: list_all_iff dropWhile_append2)
  have "s = CHR ''{'' # CHR ''{'' # ?r0" using s by simp
  then show "tokenAt s = Some (fid, r)"
    unfolding tokenAt_def by (simp add: t1 d1 t2 d2 src(1) fid(1))
qed

lemma tokenAt_braces: "tokenAt v = Some x \<Longrightarrow> \<exists>t. v = CHR ''{'' # CHR ''{'' # t"
  unfolding tokenAt_def by (auto split: list.splits if_splits)

lemma separate_tokenRe: "separate tokenRe"
  unfolding separate_def rxMatch_tokenRe
proof (intro allI impI)
  fix u g r j
  assume a: "tokenAt u = Some (g, r) \<and> 0 < j \<and> j < length u - length r"
  then obtain src where u: "u = ''{{'' @ src @ ''.'' @ g @ ''}}'' @ r"
    and src: "src \<noteq> []" "list_all isLowerOrUnderscore src"
    and g: "g \<noteq> []" "list_all isNameChar g"
    using tokenAt_iff by blast
  define w where "w = src @ ''.'' @ g @ ''}}''"
  have nb: "CHR ''{'' \<notin> set w"
    using src(2) g(2) class_facts(2,4) by (auto simp: w_def list_all_iff)
  have wne: "w \<noteq> []" by (simp add: w_def)
  have uw: "u = CHR ''{'' # CHR ''{'' # w @ r" by (simp add: u w_def)
  from a uw have j: "0 < j" "j < 2 + length w" by simp_all
  show "tokenAt (drop j u) = None"
  proof (rule ccontr)
    assume "tokenAt (drop j u) \<noteq> None"
    then obtain t where t: "drop j u = CHR ''{'' # CHR ''{'' # t"
      using tokenAt_braces by fastforce
    show False
    proof (cases "j = 1")
      case True
      with uw t have "w @ r = CHR ''{'' # t" by simp
      with wne have "hd w = CHR ''{''" by (cases w) simp_all
      with wne nb show False by (metis hd_in_set)
    next
      case False
      with j obtain k where k: "j = Suc (Suc k)" "k < length w"
        by (metis One_nat_def Suc_lessI add_2_eq_Suc less_Suc_eq_0_disj not_less_eq gr0_conv_Suc)
      with uw t have "drop k w @ r = CHR ''{'' # CHR ''{'' # t" by simp
      moreover from k(2) have "drop k w \<noteq> []" by simp
      ultimately have "hd (drop k w) = CHR ''{''" by (cases "drop k w") simp_all
      moreover from \<open>drop k w \<noteq> []\<close> have "hd (drop k w) \<in> set w"
        by (metis hd_in_set in_set_dropD)
      ultimately show False using nb by simp
    qed
  qed
qed

lemma matches_tokenRe: "matches tokenRe s = {fid. placeholderIn s fid}"
proof (intro set_eqI iffI)
  fix fid
  assume "fid \<in> matches tokenRe s"
  then obtain i r where i: "i \<le> length s" and t: "tokenAt (drop i s) = Some (fid, r)"
    by (auto simp: matches_def rxMatch_tokenRe)
  from t obtain src where d: "drop i s = ''{{'' @ src @ ''.'' @ fid @ ''}}'' @ r"
    and c: "src \<noteq> []" "list_all isLowerOrUnderscore src" "fid \<noteq> []" "list_all isNameChar fid"
    using tokenAt_iff by blast
  have "s = take i s @ drop i s" by simp
  with d have "s = take i s @ ''{{'' @ src @ ''.'' @ fid @ ''}}'' @ r" by simp
  with c have "placeholderIn s fid" unfolding placeholderIn_def by blast
  then show "fid \<in> {fid. placeholderIn s fid}" by simp
next
  fix fid
  assume "fid \<in> {fid. placeholderIn s fid}"
  then obtain pre src post where s: "s = pre @ ''{{'' @ src @ ''.'' @ fid @ ''}}'' @ post"
    and c: "src \<noteq> []" "list_all isLowerOrUnderscore src" "fid \<noteq> []" "list_all isNameChar fid"
    unfolding placeholderIn_def by blast
  from s have "drop (length pre) s = ''{{'' @ src @ ''.'' @ fid @ ''}}'' @ post" by simp
  with c have "tokenAt (drop (length pre) s) = Some (fid, post)"
    using tokenAt_iff by blast
  moreover from s have "length pre \<le> length s" by simp
  ultimately show "fid \<in> matches tokenRe s"
    unfolding matches_def rxMatch_tokenRe by blast
qed

lemma extractPropsFromJsonWithTokens_set:
  "\<exists>ps ns. extractPropNamesFromJson (stringify obj) = Some ps \<and>
           extractPropsFromJsonWithTokens obj = Some ns \<and>
           set ns = set ps \<union> {fid. placeholderIn (stringify obj) fid}"
proof -
  obtain ps where ps: "extractPropNamesFromJson (stringify obj) = Some ps"
    using extractPropNamesFromJson_total by blast
  obtain ns where ns: "execLoop tokenRe (stringify obj) ps = Some ns"
    using execLoop_total [OF consuming_tokenRe] by blast
  from execLoop_matches [OF consuming_tokenRe separate_tokenRe ns]
  have "set ns = set ps \<union> {fid. placeholderIn (stringify obj) fid}"
    by (simp add: matches_tokenRe)
  with ps ns show ?thesis by (simp add: extractPropsFromJsonWithTokens_def)
qed

text \<open>
  Claim C3, amended. For a workflow or a marketing email, the token strategy adds to the
  identifiers of structural matching exactly the \<open>fieldId\<close>s of the placeholders
  \<open>{{source.fieldId}}\<close> in the serialized item, \<open>source\<close> being one or more of
  \<open>[a-z_]\<close> and \<open>fieldId\<close> one or more of \<open>[a-z0-9_]\<close> (so that a \<open>fieldId\<close> may
  begin with a digit or an underscore); an item whose text holds
  \<open>{{contact.favorite_color}}\<close> yields a set that holds \<open>favorite_color\<close>.
\<close>

theorem token_strategy:
  "(\<exists>ps ns. extractPropNamesFromJson (stringify obj) = Some ps \<and>
      extractWorkflowProps obj = Some ns \<and> extractEmailProps obj = Some ns \<and>
      set ns = set ps \<union> {fieldId. placeholderIn (stringify obj) fieldId}) \<and>
   (stringify obj = pre @ ''{{contact.favorite_color}}'' @ post \<longrightarrow>
      (\<exists>ns. extractWorkflowProps obj = Some ns \<and> ''favorite_color'' \<in> set ns))"
proof -
  from extractPropsFromJsonWithTokens_set [of obj]
  obtain ps ns where ps: "extractPropNamesFromJson (stringify obj) = Some ps"
    and ns: "extractPropsFromJsonWithTokens obj = Some ns"
    and eq: "set ns = set ps \<union> {fieldId. placeholderIn (stringify obj) fieldId}" by blast
  have c: "list_all isLowerOrUnderscore ''contact''" "list_all isNameChar ''favorite_color''"
    by (simp_all add: isLowerOrUnderscore_def isNameChar_def isLower_def isDigit_def code_def)
  have "''favorite_color'' \<in> set ns"
    if "stringify obj = pre @ ''{{contact.favorite_color}}'' @ post"
  proof -
    from that have "stringify obj = pre @ ''{{'' @ ''contact'' @ ''.'' @ ''favorite_color'' @ ''}}'' @ post"
      by simp
    with c have "placeholderIn (stringify obj) ''favorite_color''"
      unfolding placeholderIn_def by blast
    with eq show ?thesis by simp
  qed
  with ps ns eq show ?thesis
    by (auto simp: extractWorkflowProps_def extractEmailProps_def)
qed

theorem token_strategy_witness:
  "\<exists>ns. extractWorkflowProps (JObj [(''body'', JStr ''Hi {{contact.favorite_color}}!'')]) = Some ns \<and>
     ''favorite_color'' \<in> set ns"
proof -
  have s: "stringify (JObj [(''body'', JStr ''Hi {{contact.favorite_color}}!'')])
      = [CHR ''{'', CHR 0x22, CHR ''b'', CHR ''o'', CHR ''d'', CHR ''y'', CHR 0x22, CHR '':'', CHR 0x22,
         CHR ''H'', CHR ''i'', CHR '' ''] @ ''{{contact.favorite_color}}'' @ [CHR ''!'', CHR 0x22, CHR ''}'']"
    by code_simp
  from token_strategy [of "JObj [(''body'', JStr ''Hi {{contact.favorite_color}}!'')]"
      "[CHR ''{'', CHR 0x22, CHR ''b'', CHR ''o'', CHR ''d'', CHR ''y'', CHR 0x22, CHR '':'', CHR 0x22,
         CHR ''H'', CHR ''i'', CHR '' '']" "[CHR ''!'', CHR 0x22, CHR ''}'']"] s
  show ?thesis by blast
qed

theorem token_shape_counterexample:
  "extractWorkflowProps (JObj [(''body'', JStr ''{{contact.9lives}}'')]) = Some [''9lives''] \<and>
   \<not> identShape ''9lives''"
  by code_simp

section \<open>Reference Extractor: the form walk\<close>

lemma getProp_member: "getProp v k = Inr x \<Longrightarrow> member v k = x"
  by (simp add: member_def)

lemma getProp_ok: "v \<noteq> JNull \<Longrightarrow> getProp v k = Inr (member v k)"
  by (cases v) (simp_all add: member_def)

lemma elems_iter: "iterateOrEmpty v = Inr xs \<Longrightarrow> elems v = set xs"
  by (simp add: elems_def)

lemma iterable_iter: "iterable v \<Longrightarrow> \<exists>xs. iterateOrEmpty v = Inr xs"
  by (simp add: iterable_def)

lemma elems_single: "elems (Some (JArr [d])) = {d}"
  by (simp add: elems_def iterateOrEmpty_def)

lemma iterable_single: "iterable (Some (JArr xs))"
  by (simp add: iterable_def iterateOrEmpty_def)

lemma namesFrom_unfold: "namesFrom f = {n. named f n} \<union> (\<Union>h \<in> {h. child f h}. namesFrom h)"
proof (intro set_eqI iffI)
  fix n
  assume "n \<in> namesFrom f"
  then obtain g where r: "child\<^sup>*\<^sup>* f g" and n: "named g n" by (auto simp: namesFrom_def)
  from r show "n \<in> {n. named f n} \<union> (\<Union>h \<in> {h. child f h}. namesFrom h)"
  proof (cases rule: converse_rtranclpE)
    case base
    with n show ?thesis by simp
  next
    case (step h)
    with n have "n \<in> namesFrom h" by (auto simp: namesFrom_def)
    with step show ?thesis by auto
  qed
next
  fix n
  assume "n \<in> {n. named f n} \<union> (\<Union>h \<in> {h. child f h}. namesFrom h)"
  then consider "named f n" | h where "child f h" "n \<in> namesFrom h" by auto
  then show "n \<in> namesFrom f"
  proof cases
    case 1
    then show ?thesis by (auto simp: namesFrom_def)
  next
    case 2
    then obtain g where "child\<^sup>*\<^sup>* h g" "named g n" by (auto simp: namesFrom_def)
    with 2(1) have "child\<^sup>*\<^sup>* f g" by (meson converse_rtranclp_into_rtranclp)
    with \<open>named g n\<close> show ?thesis by (auto simp: namesFrom_def)
  qed
qed

lemma children_names: "(\<Union>h \<in> {h. child f h}. namesFrom h) = (\<Union>dep \<in> elems (member f ''dependentFields''). depNames dep)"
proof (intro set_eqI iffI)
  fix n
  assume "n \<in> (\<Union>h \<in> {h. child f h}. namesFrom h)"
  then obtain h where c: "child f h" and n: "n \<in> namesFrom h" by auto
  from c obtain dep where dep: "dep \<in> elems (member f ''dependentFields'')"
    and alt: "(\<exists>flt \<in> elems (member dep ''dependentFieldFilters'').
           member flt ''dependentFormField'' = Some h \<and> truthy h) \<or>
        h \<in> elems (member dep ''fields'')"
    unfolding child_def by blast
  from alt have "n \<in> depNames dep"
  proof
    assume "\<exists>flt \<in> elems (member dep ''dependentFieldFilters'').
           member flt ''dependentFormField'' = Some h \<and> truthy h"
    then obtain flt where "flt \<in> elems (member dep ''dependentFieldFilters'')"
      and "member flt ''dependentFormField'' = Some h" and "truthy h" by blast
    with n show ?thesis unfolding depNames_def dffNames_def by force
  next
    assume "h \<in> elems (member dep ''fields'')"
    with n show ?thesis unfolding depNames_def namesUnder_def by blast
  qed
  with dep show "n \<in> (\<Union>dep \<in> elems (member f ''dependentFields''). depNames dep)" by blast
next
  fix n
  assume "n \<in> (\<Union>dep \<in> elems (member f ''dependentFields''). depNames dep)"
  then obtain dep where dep: "dep \<in> elems (member f ''dependentFields'')"
    and n: "n \<in> depNames dep" by blast
  from n consider flt where "flt \<in> elems (member dep ''dependentFieldFilters'')" "n \<in> dffNames flt"
    | "n \<in> namesUnder (member dep ''fields'')"
    unfolding depNames_def by blast
  then show "n \<in> (\<Union>h \<in> {h. child f h}. namesFrom h)"
  proof cases
    case 1
    from 1(2) obtain g where g: "member flt ''dependentFormField'' = Some g" "truthy g" "n \<in> namesFrom g"
      unfolding dffNames_def by (auto split: option.splits if_splits)
    with 1(1) dep have "child f g" unfolding child_def by blast
    with g(3) show ?thesis by blast
  next
    case 2
    then obtain h where h: "h \<in> elems (member dep ''fields'')" "n \<in> namesFrom h"
      unfolding namesUnder_def by blast
    with dep have "child f h" unfolding child_def by blast
    with h(2) show ?thesis by blast
  qed
qed

lemma namesFrom_deps:
  "namesFrom f = {n. named f n} \<union> (\<Union>dep \<in> elems (member f ''dependentFields''). depNames dep)"
  using namesFrom_unfold [of f] children_names [of f] by simp

lemma allOk_self: "allOk f \<Longrightarrow> okField f"
  by (simp add: allOk_def)

lemma allOk_child: "allOk f \<Longrightarrow> child f h \<Longrightarrow> allOk h"
  unfolding allOk_def by (meson converse_rtranclp_into_rtranclp)

lemma allOk_dep:
  assumes "allOk f" and "dep \<in> elems (member f ''dependentFields'')"
  shows "okDep dep"
proof -
  from assms(1) have ok: "okField f" by (rule allOk_self)
  with assms(2) have a: "dep \<noteq> JNull" "iterable (member dep ''dependentFieldFilters'')"
    "iterable (member dep ''fields'')"
    and b: "\<forall>flt \<in> elems (member dep ''dependentFieldFilters''). flt \<noteq> JNull"
    by (auto simp: okField_def)
  have "okFilter flt" if "flt \<in> elems (member dep ''dependentFieldFilters'')" for flt
  proof -
    have "allOk g" if "member flt ''dependentFormField'' = Some g \<and> truthy g" for g
    proof -
      from that \<open>flt \<in> elems (member dep ''dependentFieldFilters'')\<close> assms(2)
      have "child f g" unfolding child_def by blast
      with assms(1) show ?thesis by (rule allOk_child)
    qed
    with b that show ?thesis by (simp add: okFilter_def)
  qed
  moreover have "allOk g" if "g \<in> elems (member dep ''fields'')" for g
  proof -
    from that assms(2) have "child f g" unfolding child_def by blast
    with assms(1) show ?thesis by (rule allOk_child)
  qed
  ultimately show ?thesis using a by (simp add: okDep_def okList_def)
qed

lemma namesUnder_single: "namesUnder (Some (JArr [d])) = namesFrom d"
  by (simp add: namesUnder_def elems_single)

lemma scan_correct:
  "(okList flds \<longrightarrow> (\<exists>n'. scanFields flds names = Inr n')) \<and>
   (\<forall>n'. scanFields flds names = Inr n' \<longrightarrow> set n' = set names \<union> namesUnder flds)"
  and "((\<forall>f\<in>set fs. allOk f) \<longrightarrow> (\<exists>n'. scanFieldList fs names = Inr n')) \<and>
   (\<forall>n'. scanFieldList fs names = Inr n' \<longrightarrow> set n' = set names \<union> (\<Union>f\<in>set fs. namesFrom f))"
  and "((\<forall>dep\<in>set ds. okDep dep) \<longrightarrow> (\<exists>n'. scanDeps ds names = Inr n')) \<and>
   (\<forall>n'. scanDeps ds names = Inr n' \<longrightarrow> set n' = set names \<union> (\<Union>dep\<in>set ds. depNames dep))"
  and "((\<forall>flt\<in>set fl. okFilter flt) \<longrightarrow> (\<exists>n'. scanFilters fl names = Inr n')) \<and>
   (\<forall>n'. scanFilters fl names = Inr n' \<longrightarrow> set n' = set names \<union> (\<Union>flt\<in>set fl. dffNames flt))"
proof (induction flds names and fs names and ds names and fl names
    rule: scanFields_scanFieldList_scanDeps_scanFilters.induct)
  case (1 flds names)
  show ?case
  proof (intro conjI impI allI)
    assume ok: "okList flds"
    then obtain xs where it: "iterateOrEmpty flds = Inr xs"
      using iterable_iter by (auto simp: okList_def)
    from ok elems_iter [OF it] have "\<forall>f\<in>set xs. allOk f" by (simp add: okList_def)
    with "1.IH" [OF it] obtain n' where "scanFieldList xs names = Inr n'" by blast
    with it show "\<exists>n'. scanFields flds names = Inr n'" by simp
  next
    fix n'
    assume r: "scanFields flds names = Inr n'"
    then obtain xs where it: "iterateOrEmpty flds = Inr xs"
      by (cases "iterateOrEmpty flds") simp_all
    with r have "scanFieldList xs names = Inr n'" by simp
    with "1.IH" [OF it] have "set n' = set names \<union> (\<Union>f\<in>set xs. namesFrom f)" by blast
    with elems_iter [OF it] show "set n' = set names \<union> namesUnder flds"
      by (simp add: namesUnder_def)
  qed
next
  case (2 names)
  show ?case by simp
next
  case (3 field rest names)
  let ?n1 = "\<lambda>nm. case nm of None \<Rightarrow> names | Some n \<Rightarrow> if truthy n then setAdd n names else names"
  have n1: "set (?n1 (member field ''name'')) = set names \<union> {n. named field n}"
    by (auto simp: named_def setAdd_def split: option.splits)
  show ?case
  proof (intro conjI impI allI)
    assume ok: "\<forall>f\<in>set (field # rest). allOk f"
    then have af: "allOk field" and ar: "\<forall>f\<in>set rest. allOk f" by simp_all
    from af have okf: "okField field" by (rule allOk_self)
    then have nn: "field \<noteq> JNull" by (simp add: okField_def)
    note g1 = getProp_ok [OF nn, of "''name''"]
    note g2 = getProp_ok [OF nn, of "''dependentFields''"]
    from okf obtain ds where it: "iterateOrEmpty (member field ''dependentFields'') = Inr ds"
      using iterable_iter by (auto simp: okField_def)
    have "\<forall>dep\<in>set ds. okDep dep"
      using allOk_dep [OF af] elems_iter [OF it] by simp
    with "3.IH"(1) [OF g1 g2 it] obtain n2
      where sd: "scanDeps ds (?n1 (member field ''name'')) = Inr n2" by blast
    from "3.IH"(2) [OF g1 g2 it sd] ar obtain n' where "scanFieldList rest n2 = Inr n'" by blast
    with g1 g2 it sd show "\<exists>n'. scanFieldList (field # rest) names = Inr n'" by simp
  next
    fix n'
    assume r: "scanFieldList (field # rest) names = Inr n'"
    then obtain nm where g1: "getProp field ''name'' = Inr nm"
      by (cases "getProp field ''name''") simp_all
    from r g1 obtain deps where g2: "getProp field ''dependentFields'' = Inr deps"
      by (cases "getProp field ''dependentFields''") simp_all
    from r g1 g2 obtain ds where it: "iterateOrEmpty deps = Inr ds"
      by (cases "iterateOrEmpty deps") simp_all
    from r g1 g2 it obtain n2 where sd: "scanDeps ds (?n1 nm) = Inr n2"
      by (cases "scanDeps ds (?n1 nm)") simp_all
    from r g1 g2 it sd have sr: "scanFieldList rest n2 = Inr n'" by simp
    from "3.IH"(1) [OF g1 g2 it] sd
    have a: "set n2 = set (?n1 nm) \<union> (\<Union>dep\<in>set ds. depNames dep)" by blast
    from "3.IH"(2) [OF g1 g2 it sd] sr
    have b: "set n' = set n2 \<union> (\<Union>f\<in>set rest. namesFrom f)" by blast
    from getProp_member [OF g1] n1 have c: "set (?n1 nm) = set names \<union> {n. named field n}" by simp
    from getProp_member [OF g2] elems_iter [OF it]
    have "elems (member field ''dependentFields'') = set ds" by simp
    with namesFrom_deps [of field]
    have d: "namesFrom field = {n. named field n} \<union> (\<Union>dep\<in>set ds. depNames dep)" by simp
    from a b c d show "set n' = set names \<union> (\<Union>f\<in>set (field # rest). namesFrom f)" by auto
  qed
next
  case (4 names)
  show ?case by simp
next
  case (5 dep rest names)
  show ?case
  proof (intro conjI impI allI)
    assume ok: "\<forall>d\<in>set (dep # rest). okDep d"
    then have od: "okDep dep" and orest: "\<forall>d\<in>set rest. okDep d" by simp_all
    from od have nn: "dep \<noteq> JNull" by (simp add: okDep_def)
    note g1 = getProp_ok [OF nn, of "''dependentFieldFilters''"]
    note g2 = getProp_ok [OF nn, of "''fields''"]
    from od obtain fl where it: "iterateOrEmpty (member dep ''dependentFieldFilters'') = Inr fl"
      using iterable_iter by (auto simp: okDep_def)
    from od elems_iter [OF it] have "\<forall>flt\<in>set fl. okFilter flt" by (simp add: okDep_def)
    with "5.IH"(1) [OF g1 it] obtain n1 where sf: "scanFilters fl names = Inr n1" by blast
    from od have "okList (member dep ''fields'')" by (simp add: okDep_def)
    with "5.IH"(2) [OF g1 it sf g2] obtain n2
      where s2: "scanFields (member dep ''fields'') n1 = Inr n2" by blast
    from "5.IH"(3) [OF g1 it sf g2 s2] orest obtain n' where "scanDeps rest n2 = Inr n'" by blast
    with g1 g2 it sf s2 show "\<exists>n'. scanDeps (dep # rest) names = Inr n'" by simp
  next
    fix n'
    assume r: "scanDeps (dep # rest) names = Inr n'"
    then obtain filters where g1: "getProp dep ''dependentFieldFilters'' = Inr filters"
      by (cases "getProp dep ''dependentFieldFilters''") simp_all
    from r g1 obtain fl where it: "iterateOrEmpty filters = Inr fl"
      by (cases "iterateOrEmpty filters") simp_all
    from r g1 it obtain n1 where sf: "scanFilters fl names = Inr n1"
      by (cases "scanFilters fl names") simp_all
    from r g1 it sf obtain dfields where g2: "getProp dep ''fields'' = Inr dfields"
      by (cases "getProp dep ''fields''") simp_all
    from r g1 it sf g2 obtain n2 where s2: "scanFields dfields n1 = Inr n2"
      by (cases "scanFields dfields n1") simp_all
    from r g1 it sf g2 s2 have sr: "scanDeps rest n2 = Inr n'" by simp
    from "5.IH"(1) [OF g1 it] sf have a: "set n1 = set names \<union> (\<Union>flt\<in>set fl. dffNames flt)" by blast
    from "5.IH"(2) [OF g1 it sf g2] s2 have b: "set n2 = set n1 \<union> namesUnder dfields" by blast
    from "5.IH"(3) [OF g1 it sf g2 s2] sr
    have c: "set n' = set n2 \<union> (\<Union>d\<in>set rest. depNames d)" by blast
    from getProp_member [OF g1] elems_iter [OF it]
    have "elems (member dep ''dependentFieldFilters'') = set fl" by simp
    with getProp_member [OF g2]
    have d: "depNames dep = (\<Union>flt\<in>set fl. dffNames flt) \<union> namesUnder dfields"
      by (simp add: depNames_def)
    from a b c d show "set n' = set names \<union> (\<Union>d\<in>set (dep # rest). depNames d)" by auto
  qed
next
  case (6 names)
  show ?case by simp
next
  case (7 flt rest names)
  let ?inner = "\<lambda>dff. case dff of None \<Rightarrow> Inr names
      | Some d \<Rightarrow> if truthy d then scanFields (Some (JArr [d])) names else Inr names"
  show ?case
  proof (intro conjI impI allI)
    assume ok: "\<forall>f\<in>set (flt # rest). okFilter f"
    then have okf: "okFilter flt" and orest: "\<forall>f\<in>set rest. okFilter f" by simp_all
    from okf have nn: "flt \<noteq> JNull" by (simp add: okFilter_def)
    note g = getProp_ok [OF nn, of "''dependentFormField''"]
    have "\<exists>n1. ?inner (member flt ''dependentFormField'') = Inr n1"
    proof (cases "member flt ''dependentFormField''")
      case None
      then show ?thesis by simp
    next
      case (Some d)
      show ?thesis
      proof (cases "truthy d")
        case False
        with Some show ?thesis by simp
      next
        case True
        with okf Some have "allOk d" by (simp add: okFilter_def)
        then have "okList (Some (JArr [d]))"
          by (simp add: okList_def iterable_single elems_single)
        with "7.IH"(1) [OF g Some True] obtain n1
          where "scanFields (Some (JArr [d])) names = Inr n1" by blast
        with Some True show ?thesis by simp
      qed
    qed
    then obtain n1 where i: "?inner (member flt ''dependentFormField'') = Inr n1" by blast
    from "7.IH"(2) [OF g i] orest obtain n' where "scanFilters rest n1 = Inr n'" by blast
    with g i show "\<exists>n'. scanFilters (flt # rest) names = Inr n'" by simp
  next
    fix n'
    assume r: "scanFilters (flt # rest) names = Inr n'"
    then obtain dff where g: "getProp flt ''dependentFormField'' = Inr dff"
      by (cases "getProp flt ''dependentFormField''") simp_all
    from r g obtain n1 where i: "?inner dff = Inr n1"
      by (cases "?inner dff") simp_all
    from r g i have sr: "scanFilters rest n1 = Inr n'" by simp
    note m = getProp_member [OF g]
    have a: "set n1 = set names \<union> dffNames flt"
    proof (cases dff)
      case None
      with i m show ?thesis by (simp add: dffNames_def)
    next
      case (Some d)
      show ?thesis
      proof (cases "truthy d")
        case False
        with Some i m show ?thesis by (simp add: dffNames_def)
      next
        case True
        with Some i have "scanFields (Some (JArr [d])) names = Inr n1" by simp
        with "7.IH"(1) [OF g Some True]
        have "set n1 = set names \<union> namesUnder (Some (JArr [d]))" by blast
        with Some True m show ?thesis by (simp add: dffNames_def namesUnder_single)
      qed
    qed
    from "7.IH"(2) [OF g i] sr have "set n' = set n1 \<union> (\<Union>f\<in>set rest. dffNames f)" by blast
    with a show "set n' = set names \<union> (\<Union>f\<in>set (flt # rest). dffNames f)" by auto
  qed
qed

lemma scanGroups_correct:
  "((\<forall>grp\<in>set gs. grp \<noteq> JNull \<and> okList (member grp ''fields'')) \<longrightarrow>
      (\<exists>n'. scanGroups gs names = Inr n')) \<and>
   (\<forall>n'. scanGroups gs names = Inr n' \<longrightarrow>
      set n' = set names \<union> (\<Union>grp\<in>set gs. namesUnder (member grp ''fields'')))"
proof (induction gs arbitrary: names)
  case Nil
  show ?case by simp
next
  case (Cons grp rest)
  show ?case
  proof (intro conjI impI allI)
    assume ok: "\<forall>g\<in>set (grp # rest). g \<noteq> JNull \<and> okList (member g ''fields'')"
    then have nn: "grp \<noteq> JNull" and ol: "okList (member grp ''fields'')"
      and orest: "\<forall>g\<in>set rest. g \<noteq> JNull \<and> okList (member g ''fields'')" by simp_all
    note g = getProp_ok [OF nn, of "''fields''"]
    from scan_correct(1) [of "member grp ''fields''" names] ol obtain n1
      where s1: "scanFields (member grp ''fields'') names = Inr n1" by blast
    from Cons.IH [of n1] orest obtain n' where "scanGroups rest n1 = Inr n'" by blast
    with g s1 show "\<exists>n'. scanGroups (grp # rest) names = Inr n'" by simp
  next
    fix n'
    assume r: "scanGroups (grp # rest) names = Inr n'"
    then obtain gfields where g: "getProp grp ''fields'' = Inr gfields"
      by (cases "getProp grp ''fields''") simp_all
    from r g obtain n1 where s1: "scanFields gfields names = Inr n1"
      by (cases "scanFields gfields names") simp_all
    from r g s1 have sr: "scanGroups rest n1 = Inr n'" by simp
    from scan_correct(1) [of gfields names] s1
    have a: "set n1 = set names \<union> namesUnder gfields" by blast
    from Cons.IH [of n1] sr
    have b: "set n' = set n1 \<union> (\<Union>g\<in>set rest. namesUnder (member g ''fields''))" by blast
    from a b getProp_member [OF g]
    show "set n' = set names \<union> (\<Union>g\<in>set (grp # rest). namesUnder (member g ''fields''))"
      by auto
  qed
qed

lemma scanRows_correct:
  "((\<forall>row\<in>set rows. okList (Some row)) \<longrightarrow> (\<exists>n'. scanRows rows names = Inr n')) \<and>
   (\<forall>n'. scanRows rows names = Inr n' \<longrightarrow>
      set n' = set names \<union> (\<Union>row\<in>set rows. namesUnder (Some row)))"
proof (induction rows arbitrary: names)
  case Nil
  show ?case by simp
next
  case (Cons row rest)
  show ?case
  proof (intro conjI impI allI)
    assume ok: "\<forall>r\<in>set (row # rest). okList (Some r)"
    then have ol: "okList (Some row)" and orest: "\<forall>r\<in>set rest. okList (Some r)" by simp_all
    from scan_correct(1) [of "Some row" names] ol obtain n1
      where s1: "scanFields (Some row) names = Inr n1" by blast
    from Cons.IH [of n1] orest obtain n' where "scanRows rest n1 = Inr n'" by blast
    with s1 show "\<exists>n'. scanRows (row # rest) names = Inr n'" by simp
  next
    fix n'
    assume r: "scanRows (row # rest) names = Inr n'"
    then obtain n1 where s1: "scanFields (Some row) names = Inr n1"
      by (cases "scanFields (Some row) names") simp_all
    from r s1 have sr: "scanRows rest n1 = Inr n'" by simp
    from scan_correct(1) [of "Some row" names] s1
    have a: "set n1 = set names \<union> namesUnder (Some row)" by blast
    from Cons.IH [of n1] sr
    have b: "set n' = set n1 \<union> (\<Union>r\<in>set rest. namesUnder (Some r))" by blast
    from a b show "set n' = set names \<union> (\<Union>r\<in>set (row # rest). namesUnder (Some r))"
      by auto
  qed
qed

lemma iterate_JArr: "iterateOrEmpty (Some (JArr xs)) = Inr xs"
  by (simp add: iterateOrEmpty_def)

lemma scanFields_empty: "scanFields (Some (JArr [])) names = Inr names"
  by (simp add: iterate_JArr)

lemma legacy_correct:
  assumes u: "case lf of Some (JArr xs) \<Rightarrow> list_all isArray xs \<or> list_all (\<lambda>x. \<not> isArray x) xs
              | _ \<Rightarrow> True"
  shows "((\<forall>flds \<in> (case lf of
                Some (JArr xs) \<Rightarrow> if list_all isArray xs then Some ` set xs else {Some (JArr xs)}
              | _ \<Rightarrow> {}). okList flds) \<longrightarrow>
          (\<exists>n'. (case lf of
                Some (JArr (first # others)) \<Rightarrow>
                  if isArray first then scanRows (first # others) names
                  else scanFields lf names
              | Some (JArr []) \<Rightarrow> scanFields lf names
              | _ \<Rightarrow> Inr names) = Inr n')) \<and>
         (\<forall>n'. (case lf of
                Some (JArr (first # others)) \<Rightarrow>
                  if isArray first then scanRows (first # others) names
                  else scanFields lf names
              | Some (JArr []) \<Rightarrow> scanFields lf names
              | _ \<Rightarrow> Inr names) = Inr n' \<longrightarrow>
            set n' = set names \<union>
              (\<Union>flds \<in> (case lf of
                Some (JArr xs) \<Rightarrow> if list_all isArray xs then Some ` set xs else {Some (JArr xs)}
              | _ \<Rightarrow> {}). namesUnder flds))"
proof (cases lf)
  case None
  then show ?thesis by simp
next
  case (Some v)
  show ?thesis
  proof (cases v)
    case (JArr xs)
    show ?thesis
    proof (cases xs)
      case Nil
      with Some JArr show ?thesis by (simp add: iterate_JArr)
    next
      case (Cons first others)
      show ?thesis
      proof (cases "isArray first")
        case True
        with u Some JArr Cons have all: "list_all isArray (first # others)" by auto
        from scanRows_correct [of "first # others" names] all Some JArr Cons True
        show ?thesis by (simp del: scanRows.simps)
      next
        case False
        then have nall: "\<not> list_all isArray (first # others)" by simp
        from scan_correct(1) [of "Some (JArr (first # others))" names] nall Some JArr Cons False
        show ?thesis by (simp del: scanFields.simps)
      qed
    qed
  qed (use Some in simp_all)
qed

lemma groups_union:
  assumes "iterateOrEmpty (member form ''fieldGroups'') = Inr gs"
  shows "(\<Union>grp\<in>set gs. namesUnder (member grp ''fields'')) = (\<Union>flds \<in> groupLists form. namesUnder flds)"
  using elems_iter [OF assms] by (simp add: groupLists_def)

text \<open>
  Claim C2. For a form whose legacy \<open>formFields\<close> list is a flat sequence of fields or a
  sequence of rows, the names \<open>extractFormProps\<close> returns are exactly the names of the
  fields reachable from the field lists of the form: the lists \<open>fieldGroups[].fields\<close>
  and the legacy list, flat or row by row, each field with the conditional fields below
  it, reached through \<open>dependentFields[].dependentFieldFilters[].dependentFormField\<close> and
  through the legacy \<open>dependentFields[].fields\<close>, to any depth. A name is any truthy
  \<open>name\<close> value, whatever its shape. Both versions contribute to one result. The walk
  returns on every form whose lists can be iterated and whose entries are not \<open>null\<close>.
\<close>

theorem extractFormProps_walk:
  assumes u: "uniformLegacy form"
  shows "(formShaped form \<longrightarrow> (\<exists>names. extractFormProps form = Inr names)) \<and>
         (\<forall>names. extractFormProps form = Inr names \<longrightarrow> set names = fieldNames form)"
proof (intro conjI impI allI)
  assume fs: "formShaped form"
  then have nn: "form \<noteq> JNull" by (simp add: formShaped_def)
  note g1 = getProp_ok [OF nn, of "''fieldGroups''"]
  note g2 = getProp_ok [OF nn, of "''formFields''"]
  from fs have "iterable (member form ''fieldGroups'')" by (simp add: formShaped_def)
  then obtain gs where it: "iterateOrEmpty (member form ''fieldGroups'') = Inr gs"
    by (auto simp: iterable_def)
  from fs elems_iter [OF it]
  have "\<forall>grp\<in>set gs. grp \<noteq> JNull \<and> okList (member grp ''fields'')"
    by (simp add: formShaped_def groupLists_def)
  with scanGroups_correct [of gs "[]"] obtain n1 where sg: "scanGroups gs [] = Inr n1" by blast
  from fs have "\<forall>flds \<in> legacyLists form. okList flds" by (simp add: formShaped_def)
  with legacy_correct [of "member form ''formFields''" n1] u
  obtain n' where "(case member form ''formFields'' of
                Some (JArr (first # others)) \<Rightarrow>
                  if isArray first then scanRows (first # others) n1
                  else scanFields (member form ''formFields'') n1
              | Some (JArr []) \<Rightarrow> scanFields (member form ''formFields'') n1
              | _ \<Rightarrow> Inr n1) = Inr n'"
    unfolding uniformLegacy_def legacyLists_def by blast
  with g1 g2 it sg show "\<exists>names. extractFormProps form = Inr names"
    unfolding extractFormProps_def by (simp del: scanRows.simps scanFields.simps)
next
  fix names
  assume r: "extractFormProps form = Inr names"
  note r0 = r [unfolded extractFormProps_def]
  from r0 obtain groups where g1: "getProp form ''fieldGroups'' = Inr groups"
    by (cases "getProp form ''fieldGroups''") simp_all
  note r1 = r0 [unfolded g1 sum.case]
  from r1 obtain gs where it: "iterateOrEmpty groups = Inr gs"
    by (cases "iterateOrEmpty groups") simp_all
  note r2 = r1 [unfolded it sum.case]
  from r2 obtain n1 where sg: "scanGroups gs [] = Inr n1"
    by (cases "scanGroups gs []") simp_all
  note r3 = r2 [unfolded sg sum.case]
  from r3 obtain lf where g2: "getProp form ''formFields'' = Inr lf"
    by (cases "getProp form ''formFields''") simp_all
  note r4 = r3 [unfolded g2 sum.case]
  note m1 = getProp_member [OF g1]
  note m2 = getProp_member [OF g2]
  from scanGroups_correct [of gs "[]"] sg
  have a: "set n1 = (\<Union>grp\<in>set gs. namesUnder (member grp ''fields''))" by simp
  from it m1 have it': "iterateOrEmpty (member form ''fieldGroups'') = Inr gs" by simp
  note a' = a [unfolded groups_union [OF it']]
  from u m2 have u': "case lf of Some (JArr xs) \<Rightarrow> list_all isArray xs \<or> list_all (\<lambda>x. \<not> isArray x) xs
              | _ \<Rightarrow> True" by (simp add: uniformLegacy_def)
  from legacy_correct [OF u', of n1] r4 m2
  have b: "set names = set n1 \<union> (\<Union>flds \<in> legacyLists form. namesUnder flds)"
    unfolding legacyLists_def by blast
  from a' b show "set names = fieldNames form" by (auto simp: fieldNames_def)
qed

lemma sampleForm_scan:
  "extractFormProps sampleForm =
     Inr [JStr ''email'', JStr ''city'', JStr ''old'', JStr ''a'', JStr ''b'']"
  by code_simp

lemma sampleForm_uniform: "uniformLegacy sampleForm"
  by code_simp

lemma allOk_iff: "allOk f = (okField f \<and> (\<forall>g. child f g \<longrightarrow> allOk g))"
proof
  assume a: "allOk f"
  show "okField f \<and> (\<forall>g. child f g \<longrightarrow> allOk g)"
    using allOk_self [OF a] allOk_child [OF a] by blast
next
  assume r: "okField f \<and> (\<forall>g. child f g \<longrightarrow> allOk g)"
  show "allOk f"
    unfolding allOk_def
  proof (intro allI impI)
    fix g
    assume "child\<^sup>*\<^sup>* f g"
    then show "okField g"
    proof (cases rule: converse_rtranclpE)
      case base
      with r show ?thesis by simp
    next
      case (step y)
      with r have "allOk y" by blast
      with step show ?thesis by (simp add: allOk_def)
    qed
  qed
qed

lemma sampleForm_shaped: "formShaped sampleForm"
  unfolding formShaped_def sampleForm_def
  apply (simp add: okList_def iterable_def elems_def member_def groupLists_def legacyLists_def iterateOrEmpty_def)
  apply (simp add: allOk_iff [where f = "JObj xs" for xs] okField_def child_def iterable_def elems_def member_def iterateOrEmpty_def)
  done

theorem extractFormProps_walk_witness:
  "uniformLegacy sampleForm \<and> formShaped sampleForm \<and>
   extractFormProps sampleForm =
     Inr [JStr ''email'', JStr ''city'', JStr ''old'', JStr ''a'', JStr ''b''] \<and>
   fieldNames sampleForm = {JStr ''email'', JStr ''city'', JStr ''old'', JStr ''a'', JStr ''b''}"
proof -
  note w = extractFormProps_walk [OF sampleForm_uniform, THEN conjunct2, rule_format,
      OF sampleForm_scan]
  from w have "fieldNames sampleForm =
      {JStr ''email'', JStr ''city'', JStr ''old'', JStr ''a'', JStr ''b''}"
    by simp
  with sampleForm_uniform sampleForm_shaped sampleForm_scan show ?thesis by simp
qed

end
